theory Spec2Isabelle
  imports Main "HOL-Library.Word" "HOL-Library.Multiset" "HOL-Library.AList"
begin

section \<open>Go primitives\<close>

text \<open>
  A Go \<open>byte\<close> (\<open>uint8\<close>) is an 8-bit word. Error values are the message strings
  that the source passes to \<open>fmt.Errorf\<close>; \<open>None\<close> is Go's \<open>nil\<close> error.
\<close>

type_synonym byte = "8 word"

type_synonym error = string

section \<open>Pattern generators (package generator)\<close>

subsection \<open>SequentialGenerator\<close>

text \<open>
  \<open>SequentialGenerator\<close> carries a \<open>uint8\<close> counter. \<open>Generate\<close> reads the counter,
  stores \<open>uint8((int(counter) + len(buffer)) % 256)\<close> back, and then overwrites
  \<open>buffer[i]\<close> with \<open>uint8((int(startValue) + i) % 256)\<close> for each index of the buffer.
  The mutex only serialises the read-modify-write of the counter; a call made without
  contention is the function below. The result is the returned error, the
  contents of the buffer after the call and the generator after the call. The sums are
  taken in \<open>int\<close>, where a value below 256 plus the length or an index of a buffer
  does not overflow.
\<close>

record SequentialGenerator =
  counter :: byte

definition SequentialGenerator_Generate ::
  "SequentialGenerator \<Rightarrow> byte list \<Rightarrow> error option \<times> byte list \<times> SequentialGenerator" where
  "SequentialGenerator_Generate g buffer =
     (let startValue = counter g;
          g' = g\<lparr>counter := of_nat ((unat (counter g) + length buffer) mod 256)\<rparr>;
          buffer' = fold (\<lambda>i b. b[i := of_nat ((unat startValue + i) mod 256)])
                         [0..<length buffer] buffer
      in (None, buffer', g'))"

subsection \<open>ZeroGenerator\<close>

text \<open>\<open>ZeroGenerator.Generate\<close> stores \<open>0\<close> at every index and never fails.\<close>

definition ZeroGenerator_Generate :: "byte list \<Rightarrow> error option \<times> byte list" where
  "ZeroGenerator_Generate buffer =
     (None, fold (\<lambda>i b. b[i := 0]) [0..<length buffer] buffer)"

subsection \<open>RandomGenerator\<close>

text \<open>
  \<open>RandomGenerator.Generate\<close> is \<open>rand.Read(buffer)\<close> of the standard library's
  \<open>crypto/rand\<close>, which is not part of the repository. The operating system's
  entropy source is an input of the model: the list of bytes it will still deliver.
  A read of \<open>n\<close> bytes takes the next \<open>n\<close> bytes of the supply; when the supply cannot
  deliver \<open>n\<close> bytes the read fails, which is the only way \<open>Generate\<close> returns an
  error. The result is the error, the buffer after the call and the supply left.
\<close>

type_synonym entropy = "byte list"

definition RandomGenerator_Generate ::
  "entropy \<Rightarrow> byte list \<Rightarrow> error option \<times> byte list \<times> entropy" where
  "RandomGenerator_Generate ent buffer =
     (if length buffer \<le> length ent
      then (None, take (length buffer) ent, drop (length buffer) ent)
      else (Some ''crypto/rand: read failed'', buffer, ent))"

subsection \<open>MixedGenerator\<close>

text \<open>
  The two embedded generators carry no state, so the struct is its three \<open>int\<close>
  and \<open>bool\<close> fields. \<open>NewMixedGenerator\<close> replaces a chunk size \<open>\<le> 0\<close> by 1024
  and starts in the random phase at position 0.
\<close>

record MixedGenerator =
  chunkSize :: int
  isRandom :: bool
  currentPos :: int

definition NewMixedGenerator :: "int \<Rightarrow> MixedGenerator" where
  "NewMixedGenerator cs =
     \<lparr>chunkSize = (if cs \<le> 0 then 1024 else cs), isRandom = True, currentPos = 0\<rparr>"

text \<open>
  The loop of \<open>MixedGenerator.Generate\<close>. \<open>offset\<close> is the loop variable; it is
  never negative. \<open>chunk := buffer[offset : offset+copySize]\<close> is a view on the
  buffer, so what the inner generator writes lands in
  \<open>buffer[offset..offset+copySize)\<close>; a negative \<open>copySize\<close> makes the slice
  expression panic (\<open>Inl\<close>). With a chunk size of 0 the loop copies nothing and
  flips the phase for ever, so the loop is a partial function: \<open>None\<close> is "does not
  return". The \<open>int\<close> values of the loop are bounded by the chunk size and the length
  of the buffer, far from the ends of \<open>int\<close>; they are unbounded integers here.
\<close>

partial_function (option) MixedGenerator_Generate_loop ::
  "MixedGenerator \<Rightarrow> entropy \<Rightarrow> byte list \<Rightarrow> nat \<Rightarrow>
     (string + error option \<times> byte list \<times> MixedGenerator \<times> entropy) option" where
  "MixedGenerator_Generate_loop g ent buffer offset =
     (if offset < length buffer then
        (let remainingInChunk = chunkSize g - currentPos g;
             remainingInBuffer = int (length buffer) - int offset;
             copySize = min remainingInChunk remainingInBuffer
         in if copySize < 0 then Some (Inl ''slice bounds out of range'')
            else
              (let n = nat copySize;
                   chunk = take n (drop offset buffer);
                   (err, chunk', ent') =
                     (if isRandom g then RandomGenerator_Generate ent chunk
                      else (fst (ZeroGenerator_Generate chunk),
                            snd (ZeroGenerator_Generate chunk), ent));
                   buffer' = take offset buffer @ chunk' @ drop (offset + n) buffer
               in if err \<noteq> None then Some (Inr (err, buffer', g, ent'))
                  else
                    (let g1 = g\<lparr>currentPos := currentPos g + copySize\<rparr>;
                         g2 = (if currentPos g1 \<ge> chunkSize g1
                               then g1\<lparr>isRandom := \<not> isRandom g1, currentPos := 0\<rparr>
                               else g1)
                     in MixedGenerator_Generate_loop g2 ent' buffer' (offset + n))))
      else Some (Inr (None, buffer, g, ent)))"

declare MixedGenerator_Generate_loop.simps [code]

definition MixedGenerator_Generate ::
  "MixedGenerator \<Rightarrow> entropy \<Rightarrow> byte list \<Rightarrow>
     (string + error option \<times> byte list \<times> MixedGenerator \<times> entropy) option" where
  "MixedGenerator_Generate g ent buffer = MixedGenerator_Generate_loop g ent buffer 0"


text \<open>
  The same generator as the specification describes it, one byte at a time: a byte of
  the random phase is the next byte of the entropy supply, a byte of the zero phase is
  \<open>0\<close>, and after each byte the position within the phase advances, the phase
  flipping when the position reaches the chunk length. It is compared with the loop
  of the source below.
\<close>

fun Mixed_bytewise ::
  "MixedGenerator \<Rightarrow> entropy \<Rightarrow> nat \<Rightarrow> byte list \<times> MixedGenerator \<times> entropy" where
  "Mixed_bytewise g ent 0 = ([], g, ent)"
| "Mixed_bytewise g ent (Suc n) =
     (let b = (if isRandom g then hd ent else 0);
          ent1 = (if isRandom g then tl ent else ent);
          g1 = (if currentPos g + 1 \<ge> chunkSize g
                then g\<lparr>isRandom := \<not> isRandom g, currentPos := 0\<rparr>
                else g\<lparr>currentPos := currentPos g + 1\<rparr>);
          (bs, g2, ent2) = Mixed_bytewise g1 ent1 n
      in (b # bs, g2, ent2))"

section \<open>Worker pool (package worker)\<close>

subsection \<open>int64 arithmetic, slices and channels\<close>

text \<open>
  Offsets and sizes are \<open>int64\<close>. They are modelled as integers; every \<open>int64\<close>
  addition and subtraction of the source is wrapped to 64-bit two's complement.
\<close>

definition int64 :: "int \<Rightarrow> int" where
  "int64 x = signed_take_bit 63 x"

definition in_int64 :: "int \<Rightarrow> bool" where
  "in_int64 x \<longleftrightarrow> - (2 ^ 63) \<le> x \<and> x < 2 ^ 63"

text \<open>
  A Go slice is a view (pointer, length, capacity) on a backing array. The model
  keeps the backing array from the start of the view (so its length is the capacity)
  and the length of the view. \<open>buffer[:n]\<close> panics unless \<open>0 \<le> n \<le> cap(buffer)\<close>.
  Writing through a view changes the first \<open>len\<close> bytes of the array.
\<close>

record slice =
  backing :: "byte list"
  len :: nat

definition cap :: "slice \<Rightarrow> nat" where
  "cap s = length (backing s)"

definition make_bytes :: "nat \<Rightarrow> slice" where
  "make_bytes n = \<lparr>backing = replicate n 0, len = n\<rparr>"

definition slice_to :: "slice \<Rightarrow> int \<Rightarrow> string + slice" where
  "slice_to s n =
     (if n < 0 \<or> int (cap s) < n then Inl ''slice bounds out of range''
      else Inr (s\<lparr>len := nat n\<rparr>))"

definition bytes_of :: "slice \<Rightarrow> byte list" where
  "bytes_of s = take (len s) (backing s)"

definition store_bytes :: "slice \<Rightarrow> byte list \<Rightarrow> slice" where
  "store_bytes s bs =
     s\<lparr>backing := take (len s) bs @ drop (length (take (len s) bs)) (backing s)\<rparr>"

record workItem =
  w_offset :: int
  w_size :: int

record resultItem =
  r_buffer :: slice
  r_offset :: int

text \<open>
  The result of a step of a goroutine: it is suspended in a \<open>select\<close> none of whose
  cases is ready, it panicked, or it went on with a value.
\<close>

datatype 'a step = Blocked | Panicked string | Went 'a

text \<open>
  A \<open>select\<close> between \<open>ctx.Done()\<close> and one channel operation. When both cases are
  ready Go picks one pseudo-randomly; the pick is an input (\<open>True\<close>: the
  cancellation case).
\<close>

datatype selected = CtxDone | ChanOp

definition select2 :: "bool \<Rightarrow> bool \<Rightarrow> bool \<Rightarrow> selected option" where
  "select2 done_ready op_ready pick_done =
     (if done_ready \<and> op_ready then Some (if pick_done then CtxDone else ChanOp)
      else if done_ready then Some CtxDone
      else if op_ready then Some ChanOp
      else None)"

subsection \<open>The pool\<close>

text \<open>
  The fields of \<open>WorkerPool\<close> that carry data: the channels with their contents
  (capacities \<open>2 * numWorkers\<close>, \<open>2 * numWorkers\<close> and \<open>numWorkers\<close>), whether the
  work channel is closed, whether \<open>Wait\<close> has closed the result and error channels,
  whether the pool's context is cancelled, and the idle buffers of the \<open>sync.Pool\<close>.
  A \<open>sync.Pool\<close> stores \<open>*[]byte\<close>: pointers to slice headers, so an idle entry is
  a slice header with its own length.
\<close>

record WorkerPool =
  numWorkers :: int
  wp_chunkSize :: int
  workChan :: "workItem list"
  workChan_closed :: bool
  resultChan :: "resultItem list"
  errorChan :: "error list"
  results_closed :: bool
  ctx_done :: bool
  bufferPool :: "slice list"

definition NewWorkerPool :: "int \<Rightarrow> int \<Rightarrow> int \<Rightarrow> WorkerPool" where
  "NewWorkerPool numCPU nw cs =
     \<lparr>numWorkers = (if nw \<le> 0 then numCPU else nw),
      wp_chunkSize = (if cs \<le> 0 then 64 * 1024 * 1024 else cs),
      workChan = [], workChan_closed = False, resultChan = [], errorChan = [],
      results_closed = False, ctx_done = False, bufferPool = []\<rparr>"

text \<open>
  \<open>bufferPool.Get()\<close> hands out one of the idle entries or, when it finds none, the
  result of \<open>New\<close>: a fresh \<open>make([]byte, chunkSize)\<close>. Which idle entry, and whether
  the pool looks at its idle entries at all, is up to \<open>sync.Pool\<close>; the choice is an
  input (\<open>None\<close>: allocate). \<open>Put\<close> adds an entry.
\<close>

definition bufferPool_Get :: "nat option \<Rightarrow> WorkerPool \<Rightarrow> slice \<times> WorkerPool" where
  "bufferPool_Get pick p =
     (case pick of
        None \<Rightarrow> (make_bytes (nat (wp_chunkSize p)), p)
      | Some k \<Rightarrow>
          (if k < length (bufferPool p)
           then (bufferPool p ! k,
                 p\<lparr>bufferPool := take k (bufferPool p) @ drop (Suc k) (bufferPool p)\<rparr>)
           else (make_bytes (nat (wp_chunkSize p)), p)))"

definition bufferPool_Put :: "slice \<Rightarrow> WorkerPool \<Rightarrow> WorkerPool" where
  "bufferPool_Put b p = p\<lparr>bufferPool := b # bufferPool p\<rparr>"

text \<open>\<open>ReturnBuffer(buffer []byte)\<close> is \<open>p.bufferPool.Put(&buffer)\<close>: it stores the
  slice header it was given.\<close>

definition ReturnBuffer :: "slice \<Rightarrow> WorkerPool \<Rightarrow> WorkerPool" where
  "ReturnBuffer buffer p = bufferPool_Put buffer p"

subsection \<open>The worker\<close>

text \<open>
  A generator behind the \<open>Generator\<close> interface is a function from its state and the
  bytes of the buffer to the returned error, the bytes of the buffer afterwards and
  its new state. The choices of one iteration of the worker's loop are the pick of each
  \<open>select\<close> and of the buffer pool.
\<close>

type_synonym 'g generator = "'g \<Rightarrow> byte list \<Rightarrow> error option \<times> byte list \<times> 'g"

text \<open>
  \<open>ZeroGenerator\<close> behind the interface, and the \<open>FailingGenerator\<close> of the
  pool's tests, which returns an error for every buffer and leaves it untouched.
\<close>

definition Zero_generator :: "unit generator" where
  "Zero_generator g buffer =
     (fst (ZeroGenerator_Generate buffer), snd (ZeroGenerator_Generate buffer), g)"

definition FailingGenerator_Generate :: "unit generator" where
  "FailingGenerator_Generate g buffer = (Some ''test error'', buffer, g)"

record choices =
  pick_outer :: bool
  pick_buffer :: "nat option"
  pick_error :: bool
  pick_result :: bool

datatype worker_status = Looping | Returned

text \<open>
  The start of the loop body once a work item has been received (lines 95 to 102).
  \<open>bufferPtr\<close> is the pool's entry and \<open>buffer\<close> the local copy of its header, cut
  down to \<open>work.size\<close> when that is smaller; the slice expression panics on a
  negative size.
\<close>

definition worker_acquire ::
  "choices \<Rightarrow> workItem \<Rightarrow> WorkerPool \<Rightarrow> string + slice \<times> slice \<times> WorkerPool" where
  "worker_acquire ch work p =
     (let (bufferPtr, p) = bufferPool_Get (pick_buffer ch) p;
          buffer = bufferPtr
      in if w_size work < int (len buffer)
         then (case slice_to buffer (w_size work) of
                 Inl msg \<Rightarrow> Inl msg
               | Inr buffer \<Rightarrow> Inr (bufferPtr, buffer, p))
         else Inr (bufferPtr, buffer, p))"

text \<open>
  The rest of the body (lines 104 to 122). The entry and the local header share the
  backing array, so after \<open>Generate\<close> the entry holds the generated bytes under its own,
  unchanged length. On an error of the generator the worker offers the error to the
  error channel in a \<open>select\<close> with the cancellation, cancels, puts the entry back and
  returns. Otherwise it offers the result to the result channel in a \<open>select\<close> with
  the cancellation, and puts the entry back and returns if the cancellation wins.
\<close>

definition worker_process ::
  "'g generator \<Rightarrow> choices \<Rightarrow> workItem \<Rightarrow> 'g \<times> WorkerPool \<Rightarrow>
     (worker_status \<times> 'g \<times> WorkerPool) step" where
  "worker_process gen ch work s =
     (let (g, p) = s
      in case worker_acquire ch work p of
           Inl msg \<Rightarrow> Panicked msg
         | Inr (bufferPtr, buffer, p) \<Rightarrow>
             (let (err, bytes, g) = gen g (bytes_of buffer);
                  buffer = store_bytes buffer bytes;
                  bufferPtr = bufferPtr\<lparr>backing := backing buffer\<rparr>
              in case err of
                   Some e \<Rightarrow>
                     (case select2 (ctx_done p) (int (length (errorChan p)) < numWorkers p)
                             (pick_error ch) of
                        None \<Rightarrow> Blocked
                      | Some sel \<Rightarrow>
                          (let p = (case sel of
                                      ChanOp \<Rightarrow> p\<lparr>errorChan := errorChan p @ [e]\<rparr>
                                    | CtxDone \<Rightarrow> p);
                               p = p\<lparr>ctx_done := True\<rparr>;
                               p = bufferPool_Put bufferPtr p
                           in Went (Returned, g, p)))
                 | None \<Rightarrow>
                     (case select2 (ctx_done p)
                             (int (length (resultChan p)) < numWorkers p * 2)
                             (pick_result ch) of
                        None \<Rightarrow> Blocked
                      | Some CtxDone \<Rightarrow> Went (Returned, g, bufferPool_Put bufferPtr p)
                      | Some ChanOp \<Rightarrow>
                          Went (Looping, g,
                                p\<lparr>resultChan := resultChan p @
                                     [\<lparr>r_buffer = buffer, r_offset = w_offset work\<rparr>]\<rparr>))))"

text \<open>
  One iteration of the \<open>for\<close> loop of \<open>worker\<close>: the outer \<open>select\<close> between the
  context and the work channel (a receive is ready when the channel is closed or holds
  an item), then the body.
\<close>

definition worker_iteration ::
  "'g generator \<Rightarrow> choices \<Rightarrow> 'g \<times> WorkerPool \<Rightarrow> (worker_status \<times> 'g \<times> WorkerPool) step" where
  "worker_iteration gen ch s =
     (let (g, p) = s
      in case select2 (ctx_done p) (workChan_closed p \<or> workChan p \<noteq> []) (pick_outer ch) of
           None \<Rightarrow> Blocked
         | Some CtxDone \<Rightarrow> Went (Returned, g, p)
         | Some ChanOp \<Rightarrow>
             (case workChan p of
                [] \<Rightarrow> Went (Returned, g, p)
              | work # rest \<Rightarrow> worker_process gen ch work (g, p\<lparr>workChan := rest\<rparr>)))"

subsection \<open>The dispatcher\<close>

text \<open>
  \<open>distributeWork\<close> sends the work items in a loop. The items it has sent so far are
  the accumulator \<open>sent\<close>; \<open>cancelledAt k\<close> says whether the \<open>select\<close> of the
  iteration after \<open>k\<close> sends takes the cancellation case. With a chunk size of 0 the
  loop sends empty items for ever, so it is a partial function.
\<close>

partial_function (option) distributeWork_loop ::
  "(nat \<Rightarrow> bool) \<Rightarrow> int \<Rightarrow> int \<Rightarrow> int \<Rightarrow> workItem list \<Rightarrow> workItem list option" where
  "distributeWork_loop cancelledAt cs totalSize offset sent =
     (if offset < totalSize then
        (let size = cs;
             remaining = int64 (totalSize - offset);
             size = (if remaining < size then remaining else size)
         in if cancelledAt (length sent) then Some sent
            else distributeWork_loop cancelledAt cs totalSize (int64 (offset + size))
                   (sent @ [\<lparr>w_offset = offset, w_size = size\<rparr>]))
      else Some sent)"

declare distributeWork_loop.simps [code]

definition distributeWork :: "(nat \<Rightarrow> bool) \<Rightarrow> WorkerPool \<Rightarrow> int \<Rightarrow> workItem list option" where
  "distributeWork cancelledAt p totalSize =
     distributeWork_loop cancelledAt (wp_chunkSize p) totalSize 0 []"

text \<open>The byte range \<open>[offset, offset + size)\<close> of a work item.\<close>

definition work_range :: "workItem \<Rightarrow> int set" where
  "work_range it = {w_offset it ..< w_offset it + w_size it}"

text \<open>
  The dispatcher's output in closed form, for the proofs: the \<open>k\<close>-th item of a run
  over \<open>t\<close> bytes in chunks of \<open>c\<close>, and the number of items.
\<close>

definition tile :: "int \<Rightarrow> int \<Rightarrow> nat \<Rightarrow> workItem" where
  "tile c t k = \<lparr>w_offset = int k * c, w_size = min c (t - int k * c)\<rparr>"

definition tiles_count :: "int \<Rightarrow> int \<Rightarrow> nat" where
  "tiles_count c t = Suc (nat ((t - 1) div c))"

section \<open>File writer (package writer)\<close>

text \<open>
  An open \<open>os.File\<close> is its contents and its position. Writing at a position beyond
  the end leaves a hole of zero bytes. What the operating system answers to the
  \<open>Seek\<close> and the \<open>Write\<close> of one \<open>WriteAt\<close> is an input: the error of the seek,
  the count \<open>n\<close> and the error returned by the write.
\<close>

record os_File =
  contents :: "byte list"
  position :: nat

definition os_Write :: "byte list \<Rightarrow> os_File \<Rightarrow> os_File" where
  "os_Write bs f =
     \<lparr>contents =
        take (position f) (contents f @ replicate (position f - length (contents f)) 0) @
        bs @ drop (position f + length bs) (contents f),
      position = position f + length bs\<rparr>"

record io_result =
  seek_error :: "error option"
  write_count :: nat
  write_error :: "error option"

text \<open>The field \<open>file\<close> is \<open>file_os\<close>; \<open>None\<close> is the \<open>nil\<close> file of a closed writer.\<close>

record FileWriter =
  file_os :: "os_File option"
  written :: int
  totalSize :: int
  path :: string


definition FileWriter_WriteAt ::
  "io_result \<Rightarrow> byte list \<Rightarrow> int \<Rightarrow> FileWriter \<Rightarrow> error option \<times> FileWriter" where
  "FileWriter_WriteAt io data offset w =
     (if length data = 0 then (None, w)
      else case file_os w of
             None \<Rightarrow> (Some ''file writer is closed'', w)
           | Some f \<Rightarrow>
               if offset < 0 then (Some ''offset cannot be negative'', w)
               else if int64 (offset + int (length data)) > totalSize w
               then (Some ''write would exceed file size'', w)
               else
                 (case seek_error io of
                    Some e \<Rightarrow> (Some (''failed to seek: '' @ e), w)
                  | None \<Rightarrow>
                      (let n = write_count io;
                           f = os_Write (take n data) (f\<lparr>position := nat offset\<rparr>);
                           w = w\<lparr>file_os := Some f\<rparr>
                       in case write_error io of
                            Some e \<Rightarrow> (Some (''failed to write data: '' @ e), w)
                          | None \<Rightarrow>
                              if n \<noteq> length data then (Some ''short write'', w)
                              else (None, w\<lparr>written := int64 (written w + int n)\<rparr>))))"

definition FileWriter_Close ::
  "error option \<Rightarrow> error option \<Rightarrow> FileWriter \<Rightarrow> error option \<times> FileWriter" where
  "FileWriter_Close sync_error close_error w =
     (case file_os w of
        None \<Rightarrow> (None, w)
      | Some f \<Rightarrow>
          (case sync_error of
             Some e \<Rightarrow> (Some (''failed to sync file: '' @ e), w\<lparr>file_os := None\<rparr>)
           | None \<Rightarrow> (close_error, w\<lparr>file_os := None\<rparr>)))"

definition Written :: "FileWriter \<Rightarrow> int" where
  "Written w = written w"

definition TotalSize :: "FileWriter \<Rightarrow> int" where
  "TotalSize w = totalSize w"






section \<open>Shutdown handler (package signal)\<close>

text \<open>
  A \<open>CleanupFunc\<close> is a closure: it acts on the state of the program outside the
  handler (the type \<open>'w\<close>) and returns an error or \<open>nil\<close>. The registered file writer
  and progress reporter are pointers into that state: the writer is read through it
  when the report is printed, and the reporter's \<open>Stop\<close> acts on it. What is written to
  \<open>h.output\<close> (the field \<open>output_w\<close>) is kept line by line, with the numbers that the
  source formats into the line.
\<close>

datatype out_line =
    ReceivedSignal string
  | InterruptedAt int int
  | WrittenOf int int
  | PartialFileSavedTo string
  | InterruptedBeforeData
  | CleaningUp
  | CleanupWarning error
  | CleanupCompleted

type_synonym 'w CleanupFunc = "'w \<Rightarrow> error option \<times> 'w"

record 'w ShutdownHandler =
  sh_ctx_done :: bool
  cleanupFns :: "'w CleanupFunc list"
  writer :: "('w \<Rightarrow> FileWriter) option"
  progress :: "('w \<Rightarrow> 'w) option"
  output_w :: "out_line list"
  shutdownOnce :: bool
  isShutdown :: bool

definition NewShutdownHandler :: "'w ShutdownHandler" where
  "NewShutdownHandler =
     \<lparr>sh_ctx_done = False, cleanupFns = [], writer = None, progress = None, output_w = [],
      shutdownOnce = False, isShutdown = False\<rparr>"

definition SetWriter :: "('w \<Rightarrow> FileWriter) \<Rightarrow> 'w ShutdownHandler \<Rightarrow> 'w ShutdownHandler" where
  "SetWriter wr h = h\<lparr>writer := Some wr\<rparr>"

definition SetProgressReporter :: "('w \<Rightarrow> 'w) \<Rightarrow> 'w ShutdownHandler \<Rightarrow> 'w ShutdownHandler" where
  "SetProgressReporter stop h = h\<lparr>progress := Some stop\<rparr>"

definition RegisterCleanupFunc :: "'w CleanupFunc \<Rightarrow> 'w ShutdownHandler \<Rightarrow> 'w ShutdownHandler" where
  "RegisterCleanupFunc fn h = h\<lparr>cleanupFns := cleanupFns h @ [fn]\<rparr>"

definition reportPartialProgress :: "FileWriter \<Rightarrow> out_line list" where
  "reportPartialProgress fw =
     (let written = Written fw; total = TotalSize fw
      in if total > 0
         then [InterruptedAt written total, WrittenOf written total] @
              (if written > 0 then [PartialFileSavedTo (path fw)] else [])
         else [InterruptedBeforeData])"

text \<open>
  The loop \<open>for i := len(h.cleanupFns) - 1; i >= 0; i--\<close> of \<open>performCleanup\<close>, on
  the output written so far and the state of the program. It is entered with
  \<open>i = len - 1\<close>, so the index is in range.
\<close>

function cleanup_loop ::
  "'w CleanupFunc list \<Rightarrow> int \<Rightarrow> out_line list \<times> 'w \<Rightarrow> out_line list \<times> 'w" where
  "cleanup_loop fns i s =
     (if i \<ge> 0 then
        (let (out, w) = s;
             (err, w) = (fns ! nat i) w;
             out = (case err of None \<Rightarrow> out | Some e \<Rightarrow> out @ [CleanupWarning e])
         in cleanup_loop fns (i - 1) (out, w))
      else s)"
  by pat_completeness auto
termination
  by (relation "measure (\<lambda>(fns, i, s). nat (i + 1))") auto

declare cleanup_loop.simps [simp del]

definition performCleanup :: "'w ShutdownHandler \<times> 'w \<Rightarrow> 'w ShutdownHandler \<times> 'w" where
  "performCleanup s =
     (let (h, w) = s;
          w = (case progress h of None \<Rightarrow> w | Some stop \<Rightarrow> stop w);
          h = (case writer h of
                 None \<Rightarrow> h
               | Some wr \<Rightarrow> h\<lparr>output_w := output_w h @ reportPartialProgress (wr w)\<rparr>)
      in if length (cleanupFns h) > 0
         then (let (out, w) = cleanup_loop (cleanupFns h) (int (length (cleanupFns h)) - 1)
                                (output_w h @ [CleaningUp], w)
               in (h\<lparr>output_w := out @ [CleanupCompleted]\<rparr>, w))
         else (h, w))"

text \<open>
  \<open>shutdownOnce.Do(f)\<close> runs \<open>f\<close> for the first caller only; callers that arrive
  while \<open>f\<close> runs wait for it to finish and then return without running anything. So
  calls of \<open>initiateShutdown\<close>, from whatever goroutines, take effect one after the
  other, each as the function below; \<open>shutdownOnce\<close> is the flag of the \<open>sync.Once\<close>.
\<close>

definition initiateShutdown :: "'w ShutdownHandler \<times> 'w \<Rightarrow> 'w ShutdownHandler \<times> 'w" where
  "initiateShutdown s =
     (let (h, w) = s
      in if shutdownOnce h then (h, w)
         else (let h = h\<lparr>shutdownOnce := True\<rparr>;
                   h = h\<lparr>isShutdown := True\<rparr>;
                   h = h\<lparr>sh_ctx_done := True\<rparr>
               in performCleanup (h, w)))"

definition Stop :: "'w ShutdownHandler \<times> 'w \<Rightarrow> 'w ShutdownHandler \<times> 'w" where
  "Stop s = initiateShutdown s"

text \<open>\<open>signalLoop\<close> wakes up on a signal (\<open>Some\<close>) or on the cancelled context.\<close>

definition signalLoop :: "string option \<Rightarrow> 'w ShutdownHandler \<times> 'w \<Rightarrow> 'w ShutdownHandler \<times> 'w" where
  "signalLoop sig s =
     (case sig of
        Some name \<Rightarrow>
          initiateShutdown
            ((fst s)\<lparr>output_w := output_w (fst s) @ [ReceivedSignal name]\<rparr>, snd s)
      | None \<Rightarrow> initiateShutdown s)"

text \<open>
  What "reverse-registration order" means, written on its own: run a list of cleanup
  functions from first to last, each on the state the one before left, and collect the
  errors.
\<close>

fun run_in_order :: "'w CleanupFunc list \<Rightarrow> 'w \<Rightarrow> error list \<times> 'w" where
  "run_in_order [] w = ([], w)"
| "run_in_order (f # fs) w =
     (let (err, w1) = f w; (errs, w2) = run_in_order fs w1
      in ((case err of None \<Rightarrow> errs | Some e \<Rightarrow> e # errs), w2))"

section \<open>Checksum (package checksum)\<close>

text \<open>
  Modelled from the spec: the package \<open>internal/checksum\<close> (the type behind
  \<open>checksum.NewChecksumGenerator\<close> with its methods \<open>UpdateWithChunk\<close> and
  \<open>WriteChecksumFile\<close>) is not among the sources; only its caller \<open>runTrasher\<close> is.
  The specification (4.4, step 1) asks that the checksum be "computed as if chunks were
  applied in offset order" and names the strategy modelled here: "buffer out-of-order
  arrivals until the next expected offset is available before folding into a single
  running hash". The hash algorithm is a parameter: \<open>upd\<close> folds one more byte
  into the running hash state, so the digest of a byte sequence is the fold of \<open>upd\<close>
  over it from the initial state.
\<close>

record 'h ChecksumGenerator =
  hash_state :: 'h
  next_offset :: int
  pending :: "(int \<times> byte list) list"

definition NewChecksumGenerator :: "'h \<Rightarrow> 'h ChecksumGenerator" where
  "NewChecksumGenerator init = \<lparr>hash_state = init, next_offset = 0, pending = []\<rparr>"

definition digest :: "('h \<Rightarrow> byte \<Rightarrow> 'h) \<Rightarrow> 'h \<Rightarrow> byte list \<Rightarrow> 'h" where
  "digest upd init bs = foldl upd init bs"

text \<open>
  Modelled from the spec: folding the buffered chunks in while "the next expected
  offset is available".
\<close>

function fold_pending :: "('h \<Rightarrow> byte \<Rightarrow> 'h) \<Rightarrow> 'h ChecksumGenerator \<Rightarrow> 'h ChecksumGenerator" where
  "fold_pending upd c =
     (case map_of (pending c) (next_offset c) of
        None \<Rightarrow> c
      | Some bs \<Rightarrow>
          fold_pending upd
            (c\<lparr>hash_state := foldl upd (hash_state c) bs,
               next_offset := next_offset c + int (length bs),
               pending := AList.delete (next_offset c) (pending c)\<rparr>))"
  by pat_completeness auto
termination
  by (relation "measure (\<lambda>(upd, c). length (pending c))")
     (auto simp: AList.delete_eq dest!: map_of_SomeD intro!: length_filter_less)

declare fold_pending.simps [simp del]

text \<open>
  Modelled from the spec: \<open>UpdateWithChunk(buffer, offset)\<close> buffers the chunk under
  its offset and folds in what has become available. The specification names no
  failure of it, so the error it returns is \<open>nil\<close>.
\<close>

definition UpdateWithChunk ::
  "('h \<Rightarrow> byte \<Rightarrow> 'h) \<Rightarrow> byte list \<Rightarrow> int \<Rightarrow> 'h ChecksumGenerator \<Rightarrow>
     error option \<times> 'h ChecksumGenerator" where
  "UpdateWithChunk upd buffer offset c =
     (None, fold_pending upd (c\<lparr>pending := AList.update offset buffer (pending c)\<rparr>))"

text \<open>
  Modelled from the spec: the finalized checksum is the running hash once the result
  queue has closed.
\<close>

definition finalized :: "'h ChecksumGenerator \<Rightarrow> 'h" where
  "finalized c = hash_state c"

text \<open>
  The result items of a run over the chunks \<open>cs\<close> of a file, in offset order: each
  chunk with the offset at which it starts, the first one at \<open>off\<close>. The sink applies
  \<open>UpdateWithChunk\<close> to the results in the order in which they arrive.
\<close>

fun offset_chunks :: "int \<Rightarrow> byte list list \<Rightarrow> (int \<times> byte list) list" where
  "offset_chunks off [] = []"
| "offset_chunks off (ch # cs) = (off, ch) # offset_chunks (off + int (length ch)) cs"

definition UpdateWithChunk_arrivals ::
  "('h \<Rightarrow> byte \<Rightarrow> 'h) \<Rightarrow> (int \<times> byte list) list \<Rightarrow> 'h ChecksumGenerator \<Rightarrow>
     'h ChecksumGenerator" where
  "UpdateWithChunk_arrivals upd arrival c =
     fold (\<lambda>r c. snd (UpdateWithChunk upd (snd r) (fst r) c)) arrival c"

section \<open>Result sink (runTrasher)\<close>

text \<open>
  The goroutine of \<open>runTrasher\<close> that drains the results (lines 128 to 163), one
  iteration of its loop. Its \<open>select\<close> is between the context of the shutdown handler
  and a receive from the result channel, which is ready when the channel is closed or
  holds an item. \<open>runTrasher\<close> reads the fields of a result as \<open>result.Buffer\<close> and
  \<open>result.Offset\<close>; they are the fields \<open>buffer\<close> and \<open>offset\<close> of \<open>resultItem\<close>.
  \<open>SinkStopped\<close> says that the iteration called \<open>shutdownHandler.Stop()\<close> and
  returned.
\<close>

record 'h sink =
  checksumGen :: "'h ChecksumGenerator"
  fileWriter :: FileWriter
  writtenBytes :: int

datatype sink_status = SinkLooping | SinkReturned | SinkStopped

definition sink_iteration ::
  "('h \<Rightarrow> byte \<Rightarrow> 'h) \<Rightarrow> bool \<Rightarrow> bool \<Rightarrow> io_result \<Rightarrow> 'h sink \<times> WorkerPool \<Rightarrow>
     (sink_status \<times> 'h sink \<times> WorkerPool) step" where
  "sink_iteration upd handler_done pick_done io s =
     (let (k, p) = s
      in case select2 handler_done (results_closed p \<or> resultChan p \<noteq> []) pick_done of
           None \<Rightarrow> Blocked
         | Some CtxDone \<Rightarrow> Went (SinkReturned, k, p)
         | Some ChanOp \<Rightarrow>
             (case resultChan p of
                [] \<Rightarrow> Went (SinkReturned, k, p)
              | result # rest \<Rightarrow>
                  (let p = p\<lparr>resultChan := rest\<rparr>;
                       (err, cg) = UpdateWithChunk upd (bytes_of (r_buffer result))
                                     (r_offset result) (checksumGen k);
                       k = k\<lparr>checksumGen := cg\<rparr>
                   in case err of
                        Some e \<Rightarrow> Went (SinkStopped, k, ReturnBuffer (r_buffer result) p)
                      | None \<Rightarrow>
                          (let (err, fw) = FileWriter_WriteAt io (bytes_of (r_buffer result))
                                             (r_offset result) (fileWriter k);
                               k = k\<lparr>fileWriter := fw\<rparr>
                           in case err of
                                Some e \<Rightarrow>
                                  Went (SinkStopped, k, ReturnBuffer (r_buffer result) p)
                              | None \<Rightarrow>
                                  Went (SinkLooping,
                                        k\<lparr>writtenBytes :=
                                             int64 (writtenBytes k +
                                                    int (len (r_buffer result)))\<rparr>,
                                        ReturnBuffer (r_buffer result) p)))))"

section \<open>Properties of the pattern generators\<close>

lemma fold_list_update_range:
  "n \<le> length b \<Longrightarrow> fold (\<lambda>i b. b[i := f i]) [0..<n] b = map f [0..<n] @ drop n b"
proof (induction n)
  case 0
  then show ?case by simp
next
  case (Suc n)
  then show ?case
    by (simp add: list_update_append drop_Suc nth_append upd_conv_take_nth_drop flip: drop_Suc)
qed

lemma fold_list_update_all:
  "fold (\<lambda>i b. b[i := f i]) [0..<length b] b = map f [0..<length b]"
  by (simp add: fold_list_update_range)

lemma SequentialGenerator_Generate_eq:
  "SequentialGenerator_Generate g buffer =
     (None, map (\<lambda>i. of_nat ((unat (counter g) + i) mod 256)) [0..<length buffer],
      g\<lparr>counter := of_nat ((unat (counter g) + length buffer) mod 256)\<rparr>)"
  by (simp add: SequentialGenerator_Generate_def Let_def fold_list_update_all)

lemma ZeroGenerator_Generate_eq:
  "ZeroGenerator_Generate b = (None, replicate (length b) 0)"
  by (simp add: ZeroGenerator_Generate_def fold_list_update_all map_replicate_const)

text \<open>
  Claim C8. A call of the Sequential generator that starts at cursor \<open>c\<close> returns no
  error, writes \<open>(c + i) mod 256\<close> at every index \<open>i\<close> of the buffer and leaves the
  cursor at \<open>(c + len(buffer)) mod 256\<close>; the next call therefore goes on with the
  byte stream where this one stopped: its byte \<open>j\<close> is \<open>(c + len(buffer) + j) mod 256\<close>.
\<close>

theorem SequentialGenerator_Generate_stream:
  assumes "SequentialGenerator_Generate g buffer = (err, buffer', g')"
  shows "err = None \<and> length buffer' = length buffer \<and>
         (\<forall>i<length buffer. unat (buffer' ! i) = (unat (counter g) + i) mod 256) \<and>
         unat (counter g') = (unat (counter g) + length buffer) mod 256 \<and>
         (\<forall>buffer2. \<forall>j<length buffer2.
             unat (fst (snd (SequentialGenerator_Generate g' buffer2)) ! j) =
               (unat (counter g) + (length buffer + j)) mod 256)"
proof -
  from assms have e: "err = None"
    and b: "buffer' = map (\<lambda>i. of_nat ((unat (counter g) + i) mod 256)) [0..<length buffer]"
    and g: "g' = g\<lparr>counter := of_nat ((unat (counter g) + length buffer) mod 256)\<rparr>"
    by (simp_all add: SequentialGenerator_Generate_eq)
  have c: "unat (counter g') = (unat (counter g) + length buffer) mod 256"
    by (simp add: g unat_of_nat)
  have n: "\<forall>i<length buffer. unat (buffer' ! i) = (unat (counter g) + i) mod 256"
    by (simp add: b unat_of_nat)
  have s: "\<forall>buffer2. \<forall>j<length buffer2.
             unat (fst (snd (SequentialGenerator_Generate g' buffer2)) ! j) =
               (unat (counter g) + (length buffer + j)) mod 256"
    by (simp add: SequentialGenerator_Generate_eq c unat_of_nat mod_add_left_eq add.assoc)
  from e b c n s show ?thesis by simp
qed

text \<open>The example of the claim: cursor 254 and a request of five bytes.\<close>

theorem SequentialGenerator_Generate_stream_witness:
  "SequentialGenerator_Generate \<lparr>counter = 254\<rparr> [7, 7, 7, 7, 7] =
     (None, [254, 255, 0, 1, 2], \<lparr>counter = 3\<rparr>) \<and>
   (2::nat) < length [7, 7, 7, 7, 7 :: byte] \<and>
   unat ([254, 255, 0, 1, 2 :: byte] ! 2) = (unat (254 :: byte) + 2) mod 256 \<and>
   (1::nat) < length [9, 9 :: byte] \<and>
   unat (fst (snd (SequentialGenerator_Generate \<lparr>counter = 3\<rparr> [9, 9])) ! 1) =
     (unat (254 :: byte) + (5 + 1)) mod 256"
proof -
  have h: "SequentialGenerator_Generate \<lparr>counter = 254\<rparr> [7, 7, 7, 7, 7] =
     (None, [254, 255, 0, 1, 2], \<lparr>counter = 3\<rparr>)"
    by (simp add: SequentialGenerator_Generate_def)
  from SequentialGenerator_Generate_stream [OF h] h show ?thesis
    by simp
qed

subsection \<open>The Mixed generator\<close>

lemma Mixed_bytewise_add:
  "Mixed_bytewise g ent (k + m) =
     (let (b1, g1, e1) = Mixed_bytewise g ent k; (b2, g2, e2) = Mixed_bytewise g1 e1 m
      in (b1 @ b2, g2, e2))"
  by (induction k arbitrary: g ent) (simp_all add: Let_def split: prod.splits)

lemma Mixed_bytewise_phase:
  "int k \<le> chunkSize g - currentPos g \<Longrightarrow> (isRandom g \<longrightarrow> k \<le> length ent) \<Longrightarrow>
   Mixed_bytewise g ent k =
     (if isRandom g then take k ent else replicate k 0,
      if 0 < k \<and> chunkSize g \<le> currentPos g + int k
      then g\<lparr>isRandom := \<not> isRandom g, currentPos := 0\<rparr>
      else g\<lparr>currentPos := currentPos g + int k\<rparr>,
      if isRandom g then drop k ent else ent)"
proof (induction k arbitrary: g ent)
  case 0
  then show ?case by simp
next
  case (Suc k)
  show ?case
  proof (cases "chunkSize g \<le> currentPos g + 1")
    case True
    with Suc.prems have "k = 0" by simp
    with True Suc.prems show ?thesis
      by (cases ent) (auto simp: Let_def)
  next
    case False
    let ?g1 = "g\<lparr>currentPos := currentPos g + 1\<rparr>"
    let ?e1 = "if isRandom g then tl ent else ent"
    have "int k \<le> chunkSize ?g1 - currentPos ?g1" using Suc.prems by simp
    moreover have "isRandom ?g1 \<longrightarrow> k \<le> length ?e1" using Suc.prems by auto
    ultimately have ih: "Mixed_bytewise ?g1 ?e1 k = 
     (if isRandom ?g1 then take k ?e1 else replicate k 0,
      if 0 < k \<and> chunkSize ?g1 \<le> currentPos ?g1 + int k
      then ?g1\<lparr>isRandom := \<not> isRandom ?g1, currentPos := 0\<rparr>
      else ?g1\<lparr>currentPos := currentPos ?g1 + int k\<rparr>,
      if isRandom ?g1 then drop k ?e1 else ?e1)"
      by (rule Suc.IH)
    have step: "Mixed_bytewise g ent (Suc k) =
                  ((if isRandom g then hd ent else 0) # fst (Mixed_bytewise ?g1 ?e1 k),
                   snd (Mixed_bytewise ?g1 ?e1 k))"
      using False by (simp add: Let_def split: prod.splits)
    show ?thesis
      unfolding step ih using False Suc.prems
      by (cases ent) (auto simp: algebra_simps)
  qed
qed

lemma Mixed_loop_step:
  assumes "offset < length buffer"
    and "int n = min (chunkSize g - currentPos g) (int (length buffer) - int offset)"
    and "isRandom g \<longrightarrow> n \<le> length ent"
  shows "MixedGenerator_Generate_loop g ent buffer offset =
     MixedGenerator_Generate_loop
       (if chunkSize g \<le> currentPos g + int n
        then g\<lparr>isRandom := \<not> isRandom g, currentPos := 0\<rparr>
        else g\<lparr>currentPos := currentPos g + int n\<rparr>)
       (if isRandom g then drop n ent else ent)
       (take offset buffer @ (if isRandom g then take n ent else replicate n 0) @
        drop (offset + n) buffer)
       (offset + n)"
proof -
  have le: "n \<le> length buffer - offset"
    using assms(1,2) by linarith
  show ?thesis
    apply (subst MixedGenerator_Generate_loop.simps)
    apply (simp only: Let_def assms(2) [symmetric])
    using assms(1,3) le
    apply (simp add: RandomGenerator_Generate_def ZeroGenerator_Generate_eq min_absorb2)
    done
qed

lemma Mixed_loop_bytewise:
  assumes "0 \<le> currentPos g" and "currentPos g < chunkSize g"
    and "length buffer - offset \<le> length ent" and "offset \<le> length buffer"
  shows "MixedGenerator_Generate_loop g ent buffer offset =
           Some (Inr (None,
                      take offset buffer @ fst (Mixed_bytewise g ent (length buffer - offset)),
                      snd (Mixed_bytewise g ent (length buffer - offset))))"
  using assms
proof (induction "length buffer - offset" arbitrary: g ent buffer offset rule: less_induct)
  case less
  show ?case
  proof (cases "offset < length buffer")
    case False
    with less.prems show ?thesis
      by (subst MixedGenerator_Generate_loop.simps) simp
  next
    case True
    define m where "m = length buffer - offset"
    define n where "n = nat (min (chunkSize g - currentPos g) (int m))"
    have m: "0 < m" using True by (simp add: m_def)
    have n: "0 < n" "n \<le> m" "int n \<le> chunkSize g - currentPos g"
            "int n = min (chunkSize g - currentPos g) (int (length buffer) - int offset)"
      using less.prems m True by (auto simp: n_def m_def min_def)
    define chunk' where "chunk' = (if isRandom g then take n ent else replicate n 0)"
    define ent' where "ent' = (if isRandom g then drop n ent else ent)"
    define g2 where "g2 = (if chunkSize g \<le> currentPos g + int n
                            then g\<lparr>isRandom := \<not> isRandom g, currentPos := 0\<rparr>
                            else g\<lparr>currentPos := currentPos g + int n\<rparr>)"
    define buffer' where "buffer' = take offset buffer @ chunk' @ drop (offset + n) buffer"
    have nle: "n \<le> length ent" using n less.prems by (simp add: m_def)
    have lc: "length chunk' = n" using nle by (simp add: chunk'_def)
    have lb: "length buffer' = length buffer"
      using n True by (simp add: buffer'_def lc m_def)
    have ph: "Mixed_bytewise g ent n = (chunk', g2, ent')"
      using Mixed_bytewise_phase [of n g ent] n nle
      by (simp add: chunk'_def g2_def ent'_def)
    have unfold: "MixedGenerator_Generate_loop g ent buffer offset =
                  MixedGenerator_Generate_loop g2 ent' buffer' (offset + n)"
      unfolding g2_def ent'_def buffer'_def chunk'_def
      using True n(4) nle by (intro Mixed_loop_step) auto
    have g2ok: "0 \<le> currentPos g2" "currentPos g2 < chunkSize g2"
      using less.prems n by (auto simp: g2_def)
    have "length buffer' - (offset + n) < length buffer - offset"
      using n True by (simp add: lb)
    moreover have "length buffer' - (offset + n) \<le> length ent'"
      using less.prems nle by (auto simp: lb ent'_def)
    moreover have "offset + n \<le> length buffer'"
      using n by (simp add: lb m_def)
    ultimately have ih: "MixedGenerator_Generate_loop g2 ent' buffer' (offset + n) =
           Some (Inr (None,
                      take (offset + n) buffer' @
                        fst (Mixed_bytewise g2 ent' (length buffer' - (offset + n))),
                      snd (Mixed_bytewise g2 ent' (length buffer' - (offset + n)))))"
      using less.hyps [of buffer' "offset + n" g2 ent'] g2ok by blast
    have tk: "take (offset + n) buffer' = take offset buffer @ chunk'"
      using True by (simp add: buffer'_def lc)
    have "length buffer - offset = n + (length buffer' - (offset + n))"
      using n by (simp add: lb m_def)
    then have sp: "Mixed_bytewise g ent (length buffer - offset) =
               (chunk' @ fst (Mixed_bytewise g2 ent' (length buffer' - (offset + n))),
                snd (Mixed_bytewise g2 ent' (length buffer' - (offset + n))))"
      by (simp add: Mixed_bytewise_add ph split: prod.splits)
    show ?thesis
      unfolding unfold ih tk sp by simp
  qed
qed

lemma Mixed_bytewise_valid:
  "0 \<le> currentPos g \<Longrightarrow> currentPos g < chunkSize g \<Longrightarrow>
   0 \<le> currentPos (fst (snd (Mixed_bytewise g ent k))) \<and>
   currentPos (fst (snd (Mixed_bytewise g ent k))) < chunkSize (fst (snd (Mixed_bytewise g ent k))) \<and>
   length ent - k \<le> length (snd (snd (Mixed_bytewise g ent k)))"
proof (induction k arbitrary: g ent)
  case 0
  then show ?case by simp
next
  case (Suc k)
  let ?g1 = "if currentPos g + 1 \<ge> chunkSize g
             then g\<lparr>isRandom := \<not> isRandom g, currentPos := 0\<rparr>
             else g\<lparr>currentPos := currentPos g + 1\<rparr>"
  let ?e1 = "if isRandom g then tl ent else ent"
  have v: "0 \<le> currentPos ?g1" "currentPos ?g1 < chunkSize ?g1"
    using Suc.prems by auto
  have l: "length ent - Suc k \<le> length ?e1 - k" by auto
  have step: "snd (Mixed_bytewise g ent (Suc k)) = snd (Mixed_bytewise ?g1 ?e1 k)"
    by (simp add: Let_def split: prod.splits)
  from Suc.IH [OF v, of ?e1] l show ?case
    unfolding step by linarith
qed

lemma MixedGenerator_Generate_bytewise:
  assumes "0 \<le> currentPos g" and "currentPos g < chunkSize g" and "length buffer \<le> length ent"
  shows "MixedGenerator_Generate g ent buffer =
           Some (Inr (None, Mixed_bytewise g ent (length buffer)))"
  using Mixed_loop_bytewise [of g buffer 0 ent] assms
  by (simp add: MixedGenerator_Generate_def)

lemma MixedGenerator_Generate_split:
  assumes "0 \<le> currentPos g" and "currentPos g < chunkSize g"
    and "length b1 + length b2 \<le> length ent"
    and "MixedGenerator_Generate g ent (b1 @ b2) = Some (Inr (None, out, g', ent'))"
  shows "\<exists>out1 g1 ent1 out2.
           MixedGenerator_Generate g ent b1 = Some (Inr (None, out1, g1, ent1)) \<and>
           MixedGenerator_Generate g1 ent1 b2 = Some (Inr (None, out2, g', ent')) \<and>
           out1 @ out2 = out"
proof -
  obtain out1 g1 ent1 where r1: "Mixed_bytewise g ent (length b1) = (out1, g1, ent1)"
    by (metis prod_cases3)
  obtain out2 g2 ent2 where r2: "Mixed_bytewise g1 ent1 (length b2) = (out2, g2, ent2)"
    by (metis prod_cases3)
  have v1: "0 \<le> currentPos g1" "currentPos g1 < chunkSize g1"
           "length ent - length b1 \<le> length ent1"
    using Mixed_bytewise_valid [OF assms(1,2), of ent "length b1"] by (simp_all add: r1)
  have c1: "MixedGenerator_Generate g ent b1 = Some (Inr (None, out1, g1, ent1))"
    using assms(1-3) by (simp add: MixedGenerator_Generate_bytewise r1)
  have c2: "MixedGenerator_Generate g1 ent1 b2 = Some (Inr (None, out2, g2, ent2))"
    using v1 assms(3) by (simp add: MixedGenerator_Generate_bytewise r2)
  have "MixedGenerator_Generate g ent (b1 @ b2) = Some (Inr (None, out1 @ out2, g2, ent2))"
    using assms(1-3) by (simp add: MixedGenerator_Generate_bytewise Mixed_bytewise_add r1 r2)
  with assms(4) have "out = out1 @ out2" "g' = g2" "ent' = ent2" by simp_all
  with c1 c2 show ?thesis by blast
qed

lemma MixedGenerator_Generate_30_direct:
  assumes "length buffer = 30" and "20 \<le> length ent"
  shows "MixedGenerator_Generate (NewMixedGenerator 10) ent buffer =
           Some (Inr (None, take 10 ent @ replicate 10 0 @ take 10 (drop 10 ent),
                      \<lparr>chunkSize = 10, isRandom = False, currentPos = 0\<rparr>, drop 20 ent))"
proof -
  let ?g0 = "\<lparr>chunkSize = 10, isRandom = True, currentPos = 0\<rparr>"
  let ?g1 = "\<lparr>chunkSize = 10, isRandom = False, currentPos = 0\<rparr>"
  let ?b1 = "take 10 ent @ drop 10 buffer"
  let ?b2 = "take 10 ent @ replicate 10 0 @ drop 20 buffer"
  let ?b3 = "take 10 ent @ replicate 10 0 @ take 10 (drop 10 ent)"
  have s1: "MixedGenerator_Generate_loop ?g0 ent buffer 0 =
            MixedGenerator_Generate_loop ?g1 (drop 10 ent) ?b1 10"
    using Mixed_loop_step [of 0 buffer 10 ?g0 ent] assms by simp
  have s2: "MixedGenerator_Generate_loop ?g1 (drop 10 ent) ?b1 10 =
            MixedGenerator_Generate_loop ?g0 (drop 10 ent) ?b2 20"
    using Mixed_loop_step [of 10 ?b1 10 ?g1 "drop 10 ent"] assms by simp
  have s3: "MixedGenerator_Generate_loop ?g0 (drop 10 ent) ?b2 20 =
            MixedGenerator_Generate_loop ?g1 (drop 20 ent) ?b3 30"
    using Mixed_loop_step [of 20 ?b2 10 ?g0 "drop 10 ent"] assms by simp
  have s4: "MixedGenerator_Generate_loop ?g1 (drop 20 ent) ?b3 30 =
            Some (Inr (None, ?b3, ?g1, drop 20 ent))"
    using assms by (subst MixedGenerator_Generate_loop.simps) simp
  show ?thesis
    by (simp add: MixedGenerator_Generate_def NewMixedGenerator_def s1 s2 s3 s4)
qed

text \<open>
  Claim C9, as amended. For the Mixed generator made by \<open>NewMixedGenerator(10)\<close>, one
  \<open>Generate\<close> call on a 30-byte buffer, with an entropy source that delivers 30
  bytes, returns no error and fills bytes \<open>[0,10)\<close> with the first ten bytes read from the source,
  bytes \<open>[10,20)\<close> with zeros and bytes \<open>[20,30)\<close> with the next ten bytes read from
  the source; it leaves the generator in the zero phase at position 0. The phase and
  the position are kept across calls: cutting the buffer at any \<open>n \<le> 30\<close> and filling
  the two parts by two consecutive calls gives the same bytes, the same final state and
  the same use of the source.
\<close>

theorem MixedGenerator_Generate_alternates:
  assumes "length buffer = 30" and "30 \<le> length ent"
  shows "MixedGenerator_Generate (NewMixedGenerator 10) ent buffer =
           Some (Inr (None, take 10 ent @ replicate 10 0 @ take 10 (drop 10 ent),
                      \<lparr>chunkSize = 10, isRandom = False, currentPos = 0\<rparr>, drop 20 ent)) \<and>
         (\<forall>n\<le>30. \<exists>out1 g1 ent1 out2.
            MixedGenerator_Generate (NewMixedGenerator 10) ent (take n buffer) =
              Some (Inr (None, out1, g1, ent1)) \<and>
            MixedGenerator_Generate g1 ent1 (drop n buffer) =
              Some (Inr (None, out2, \<lparr>chunkSize = 10, isRandom = False, currentPos = 0\<rparr>,
                         drop 20 ent)) \<and>
            out1 @ out2 = take 10 ent @ replicate 10 0 @ take 10 (drop 10 ent))"
proof -
  have d: "MixedGenerator_Generate (NewMixedGenerator 10) ent buffer =
           Some (Inr (None, take 10 ent @ replicate 10 0 @ take 10 (drop 10 ent),
                      \<lparr>chunkSize = 10, isRandom = False, currentPos = 0\<rparr>, drop 20 ent))"
    using assms by (intro MixedGenerator_Generate_30_direct) simp_all
  have v: "0 \<le> currentPos (NewMixedGenerator 10)"
          "currentPos (NewMixedGenerator 10) < chunkSize (NewMixedGenerator 10)"
    by (simp_all add: NewMixedGenerator_def)
  have "\<exists>out1 g1 ent1 out2.
            MixedGenerator_Generate (NewMixedGenerator 10) ent (take n buffer) =
              Some (Inr (None, out1, g1, ent1)) \<and>
            MixedGenerator_Generate g1 ent1 (drop n buffer) =
              Some (Inr (None, out2, \<lparr>chunkSize = 10, isRandom = False, currentPos = 0\<rparr>,
                         drop 20 ent)) \<and>
            out1 @ out2 = take 10 ent @ replicate 10 0 @ take 10 (drop 10 ent)" for n
    using MixedGenerator_Generate_split [OF v, of "take n buffer" "drop n buffer" ent] d assms
    by simp
  with d show ?thesis by blast
qed

theorem MixedGenerator_Generate_alternates_witness:
  "length (replicate 30 (7::byte)) = 30 \<and>
   30 \<le> length [1,2,3,4,5,6,7,8,9,10,11,12,13,14,15,16,17,18,19,20,
                  21,22,23,24,25,26,27,28,29,30 :: byte] \<and>
   (12::nat) \<le> 30 \<and>
   MixedGenerator_Generate (NewMixedGenerator 10)
     [1,2,3,4,5,6,7,8,9,10,11,12,13,14,15,16,17,18,19,20,21,22,23,24,25,26,27,28,29,30]
     (replicate 30 7) =
     Some (Inr (None, [1,2,3,4,5,6,7,8,9,10, 0,0,0,0,0,0,0,0,0,0, 11,12,13,14,15,16,17,18,19,20],
                \<lparr>chunkSize = 10, isRandom = False, currentPos = 0\<rparr>,
                [21,22,23,24,25,26,27,28,29,30])) \<and>
   MixedGenerator_Generate \<lparr>chunkSize = 10, isRandom = False, currentPos = 2\<rparr>
     [11,12,13,14,15,16,17,18,19,20,21,22,23,24,25,26,27,28,29,30] (replicate 18 7) =
     Some (Inr (None, [0,0,0,0,0,0,0,0, 11,12,13,14,15,16,17,18,19,20],
                \<lparr>chunkSize = 10, isRandom = False, currentPos = 0\<rparr>,
                [21,22,23,24,25,26,27,28,29,30]))"
proof -
  let ?ent = "[1,2,3,4,5,6,7,8,9,10,11,12,13,14,15,16,17,18,19,20,
               21,22,23,24,25,26,27,28,29,30 :: byte]"
  have a: "length (replicate 30 (7::byte)) = 30" by simp
  have b: "30 \<le> length ?ent" by simp
  have c: "(12::nat) \<le> 30" by simp
  have first: "MixedGenerator_Generate (NewMixedGenerator 10) ?ent (take 12 (replicate 30 7)) =
     Some (Inr (None, [1,2,3,4,5,6,7,8,9,10,0,0],
                \<lparr>chunkSize = 10, isRandom = False, currentPos = 2\<rparr>,
                [11,12,13,14,15,16,17,18,19,20,21,22,23,24,25,26,27,28,29,30]))"
    by code_simp
  note whole = MixedGenerator_Generate_alternates [OF a b, THEN conjunct1]
  note parts = MixedGenerator_Generate_alternates [OF a b, THEN conjunct2, rule_format, OF c]
  from parts first have second:
    "MixedGenerator_Generate \<lparr>chunkSize = 10, isRandom = False, currentPos = 2\<rparr>
       [11,12,13,14,15,16,17,18,19,20,21,22,23,24,25,26,27,28,29,30] (replicate 18 7) =
     Some (Inr (None, [0,0,0,0,0,0,0,0, 11,12,13,14,15,16,17,18,19,20],
                \<lparr>chunkSize = 10, isRandom = False, currentPos = 0\<rparr>,
                [21,22,23,24,25,26,27,28,29,30]))"
    by (auto simp: numeral_eq_Suc)
  from whole second show ?thesis
    by (simp add: numeral_eq_Suc)
qed

text \<open>
  The bytes of the random phase are whatever the entropy source delivers. When it
  delivers zeros, bytes \<open>[0,10)\<close> and \<open>[20,30)\<close> are all zero as well, so "not all
  zero" is not a property of every call.
\<close>

theorem MixedGenerator_Generate_random_zero:
  "MixedGenerator_Generate (NewMixedGenerator 10) (replicate 30 0) (replicate 30 7) =
     Some (Inr (None, replicate 30 0,
                \<lparr>chunkSize = 10, isRandom = False, currentPos = 0\<rparr>, replicate 10 0))"
  using MixedGenerator_Generate_30_direct [of "replicate 30 7" "replicate 30 0"]
  by (simp flip: replicate_add)

section \<open>Properties of the worker pool\<close>

text \<open>
  Claim C5, as amended. In a worker step whose \<open>Generate\<close> call returns an error
  \<open>e\<close>, the worker does not panic and is suspended only while the context is not
  cancelled and the error channel is full. When it goes on, it returns (it does not loop,
  so the work item is not tried again and stays out of the work channel), the context is
  cancelled, the result channel is unchanged, and the pool's entry is back in the buffer
  pool under its own length. The error is published on the error channel whenever the
  context was not cancelled before; when the context was already cancelled the \<open>select\<close>
  may take the cancellation case, and then the error is not published.
\<close>

theorem worker_generator_failure:
  assumes "worker_acquire ch work p = Inr (bufferPtr, buffer, p1)"
    and "gen g (bytes_of buffer) = (Some e, bytes, g')"
  shows "(\<not> ctx_done p \<and> int (length (errorChan p)) < numWorkers p \<longrightarrow>
            (\<exists>p'. worker_process gen ch work (g, p) = Went (Returned, g', p') \<and>
                  errorChan p' = errorChan p @ [e])) \<and>
         (worker_process gen ch work (g, p) = Blocked \<longleftrightarrow>
            \<not> ctx_done p \<and> \<not> int (length (errorChan p)) < numWorkers p) \<and>
         (\<forall>msg. worker_process gen ch work (g, p) \<noteq> Panicked msg) \<and>
         (\<forall>st g'' p'. worker_process gen ch work (g, p) = Went (st, g'', p') \<longrightarrow>
            st = Returned \<and> g'' = g' \<and> ctx_done p' \<and>
            resultChan p' = resultChan p \<and> workChan p' = workChan p \<and>
            bufferPool p' =
              bufferPtr\<lparr>backing := backing (store_bytes buffer bytes)\<rparr> # bufferPool p1 \<and>
            (errorChan p' = errorChan p @ [e] \<or> ctx_done p \<and> errorChan p' = errorChan p))"
proof -
  have p1: "ctx_done p1 = ctx_done p" "errorChan p1 = errorChan p" "numWorkers p1 = numWorkers p"
    "resultChan p1 = resultChan p" "workChan p1 = workChan p"
    using assms(1)
    by (auto simp: worker_acquire_def bufferPool_Get_def Let_def
             split: option.splits if_splits sum.splits)
  have eq: "worker_process gen ch work (g, p) =
     (case select2 (ctx_done p) (int (length (errorChan p)) < numWorkers p) (pick_error ch) of
        None \<Rightarrow> Blocked
      | Some sel \<Rightarrow>
          Went (Returned, g',
                p1\<lparr>errorChan := (case sel of ChanOp \<Rightarrow> errorChan p @ [e]
                                   | CtxDone \<Rightarrow> errorChan p),
                   ctx_done := True,
                   bufferPool := bufferPtr\<lparr>backing := backing (store_bytes buffer bytes)\<rparr> #
                                 bufferPool p1\<rparr>))"
    using assms
    by (simp add: worker_process_def Let_def p1 bufferPool_Put_def
             split: option.splits selected.splits)
  show ?thesis
    unfolding eq select2_def by (simp add: p1)
qed


theorem worker_generator_failure_witness:
  "worker_acquire \<lparr>pick_outer = False, pick_buffer = None, pick_error = False, pick_result = False\<rparr>
     \<lparr>w_offset = 0, w_size = 4\<rparr> (NewWorkerPool 8 2 4) =
     Inr (make_bytes 4, make_bytes 4, NewWorkerPool 8 2 4) \<and>
   FailingGenerator_Generate () (bytes_of (make_bytes 4)) = (Some ''test error'', [0, 0, 0, 0], ()) \<and>
   \<not> ctx_done (NewWorkerPool 8 2 4) \<and>
   int (length (errorChan (NewWorkerPool 8 2 4))) < numWorkers (NewWorkerPool 8 2 4) \<and>
   worker_process FailingGenerator_Generate
     \<lparr>pick_outer = False, pick_buffer = None, pick_error = False, pick_result = False\<rparr>
     \<lparr>w_offset = 0, w_size = 4\<rparr> ((), NewWorkerPool 8 2 4) =
     Went (Returned, (),
           \<lparr>numWorkers = 2, wp_chunkSize = 4, workChan = [], workChan_closed = False,
              resultChan = [], errorChan = [''test error''], results_closed = False,
              ctx_done = True, bufferPool = [\<lparr>backing = [0, 0, 0, 0], len = 4\<rparr>]\<rparr>)"
proof -
  let ?ch = "\<lparr>pick_outer = False, pick_buffer = None, pick_error = False, pick_result = False\<rparr>"
  let ?p = "NewWorkerPool 8 2 4"
  have a: "worker_acquire ?ch \<lparr>w_offset = 0, w_size = 4\<rparr> ?p = Inr (make_bytes 4, make_bytes 4, ?p)"
    by code_simp
  have b: "FailingGenerator_Generate () (bytes_of (make_bytes 4)) =
             (Some ''test error'', [0, 0, 0, 0], ())"
    by code_simp
  have c: "\<not> ctx_done ?p \<and> int (length (errorChan ?p)) < numWorkers ?p"
    by (simp add: NewWorkerPool_def)
  have r: "worker_process FailingGenerator_Generate ?ch \<lparr>w_offset = 0, w_size = 4\<rparr> ((), ?p) =
     Went (Returned, (),
           \<lparr>numWorkers = 2, wp_chunkSize = 4, workChan = [], workChan_closed = False,
              resultChan = [], errorChan = [''test error''], results_closed = False,
              ctx_done = True, bufferPool = [\<lparr>backing = [0, 0, 0, 0], len = 4\<rparr>]\<rparr>)"
    by code_simp
  from worker_generator_failure [where gen = FailingGenerator_Generate and g = "()", OF a b] c
  have "\<exists>p'. worker_process FailingGenerator_Generate ?ch \<lparr>w_offset = 0, w_size = 4\<rparr> ((), ?p) =
                Went (Returned, (), p') \<and> errorChan p' = errorChan ?p @ [''test error'']"
    by blast
  with a b c r show ?thesis by simp
qed

text \<open>
  A worker whose generator fails after the context has been cancelled, with the
  \<open>select\<close> taking the cancellation case: the error channel stays empty.
\<close>

theorem worker_error_dropped_after_cancel:
  "worker_process FailingGenerator_Generate
     \<lparr>pick_outer = False, pick_buffer = None, pick_error = True, pick_result = False\<rparr>
     \<lparr>w_offset = 0, w_size = 4\<rparr>
     ((), \<lparr>numWorkers = 2, wp_chunkSize = 4, workChan = [], workChan_closed = False,
              resultChan = [], errorChan = [], results_closed = False,
              ctx_done = True, bufferPool = []\<rparr>) =
   Went (Returned, (),
         \<lparr>numWorkers = 2, wp_chunkSize = 4, workChan = [], workChan_closed = False,
            resultChan = [], errorChan = [], results_closed = False,
            ctx_done = True, bufferPool = [\<lparr>backing = [0, 0, 0, 0], len = 4\<rparr>]\<rparr>)"
  by code_simp

text \<open>
  Claim C1 asks that every buffer held by the pool keeps the full chunk length. The
  releases of the worker put back the pool's entry, whose length is never cut.
  \<open>ReturnBuffer\<close>, which the result sink calls, stores the header it is given, and for
  the truncated last chunk that is the cut-down view. With chunk size 4 and a last chunk
  of 2 bytes: the worker publishes a result of length 2; the release by the sink leaves an
  entry of length 2 (and capacity 4) in the pool; the next \<open>Get\<close> hands out that entry;
  and a worker that takes it for a work item of 4 bytes generates and publishes 2 bytes
  only.
\<close>

theorem ReturnBuffer_keeps_truncated_length:
  "worker_process Zero_generator
     \<lparr>pick_outer = False, pick_buffer = Some 0, pick_error = False, pick_result = False\<rparr>
     \<lparr>w_offset = 8, w_size = 2\<rparr> ((), NewWorkerPool 8 1 4) =
     Went (Looping, (),
           \<lparr>numWorkers = 1, wp_chunkSize = 4, workChan = [], workChan_closed = False,
              resultChan = [\<lparr>r_buffer = \<lparr>backing = [0, 0, 0, 0], len = 2\<rparr>, r_offset = 8\<rparr>],
              errorChan = [], results_closed = False, ctx_done = False, bufferPool = []\<rparr>) \<and>
   sink_iteration (\<lambda>h b. h + unat b) False False
     \<lparr>seek_error = None, write_count = 2, write_error = None\<rparr>
     (\<lparr>checksumGen = NewChecksumGenerator 0,
       fileWriter = \<lparr>file_os = Some \<lparr>contents = replicate 10 0, position = 0\<rparr>,
                     written = 8, totalSize = 10, path = ''out''\<rparr>,
       writtenBytes = 8\<rparr>,
      \<lparr>numWorkers = 1, wp_chunkSize = 4, workChan = [], workChan_closed = False,
         resultChan = [\<lparr>r_buffer = \<lparr>backing = [0, 0, 0, 0], len = 2\<rparr>, r_offset = 8\<rparr>],
         errorChan = [], results_closed = False, ctx_done = False, bufferPool = []\<rparr>) =
     Went (SinkLooping,
           \<lparr>checksumGen = \<lparr>hash_state = 0, next_offset = 0, pending = [(8, [0, 0])]\<rparr>,
              fileWriter = \<lparr>file_os = Some \<lparr>contents = replicate 10 0, position = 10\<rparr>,
                            written = 10, totalSize = 10, path = ''out''\<rparr>,
              writtenBytes = 10\<rparr>,
           \<lparr>numWorkers = 1, wp_chunkSize = 4, workChan = [], workChan_closed = False,
              resultChan = [], errorChan = [], results_closed = False, ctx_done = False,
              bufferPool = [\<lparr>backing = [0, 0, 0, 0], len = 2\<rparr>]\<rparr>) \<and>
   bufferPool_Get (Some 0)
     \<lparr>numWorkers = 1, wp_chunkSize = 4, workChan = [], workChan_closed = False,
        resultChan = [], errorChan = [], results_closed = False, ctx_done = False,
        bufferPool = [\<lparr>backing = [0, 0, 0, 0], len = 2\<rparr>]\<rparr> =
     (\<lparr>backing = [0, 0, 0, 0], len = 2\<rparr>,
      \<lparr>numWorkers = 1, wp_chunkSize = 4, workChan = [], workChan_closed = False,
        resultChan = [], errorChan = [], results_closed = False, ctx_done = False,
        bufferPool = []\<rparr>) \<and>
   worker_process Zero_generator
     \<lparr>pick_outer = False, pick_buffer = Some 0, pick_error = False, pick_result = False\<rparr>
     \<lparr>w_offset = 0, w_size = 4\<rparr>
     ((), \<lparr>numWorkers = 1, wp_chunkSize = 4, workChan = [], workChan_closed = False,
             resultChan = [], errorChan = [], results_closed = False, ctx_done = False,
             bufferPool = [\<lparr>backing = [0, 0, 0, 0], len = 2\<rparr>]\<rparr>) =
     Went (Looping, (),
           \<lparr>numWorkers = 1, wp_chunkSize = 4, workChan = [], workChan_closed = False,
              resultChan = [\<lparr>r_buffer = \<lparr>backing = [0, 0, 0, 0], len = 2\<rparr>, r_offset = 0\<rparr>],
              errorChan = [], results_closed = False, ctx_done = False, bufferPool = []\<rparr>)"
  by code_simp

subsection \<open>The dispatcher\<close>

lemma int64_id: "in_int64 x \<Longrightarrow> int64 x = x"
  by (simp add: int64_def in_int64_def signed_take_bit_int_eq_self_iff)

lemma tiles_count_bounds:
  assumes "0 < c" and "0 < t"
  shows "int (tiles_count c t - 1) * c < t" and "t \<le> int (tiles_count c t) * c"
proof -
  let ?q = "(t - 1) div c"
  have q: "0 \<le> ?q" using assms by (simp add: pos_imp_zdiv_nonneg_iff)
  have e: "t - 1 = ?q * c + (t - 1) mod c" by simp
  have r: "0 \<le> (t - 1) mod c" "(t - 1) mod c < c" using assms by simp_all
  have n: "int (tiles_count c t - 1) = ?q" "int (tiles_count c t) = ?q + 1"
    using q by (simp_all add: tiles_count_def)
  show "int (tiles_count c t - 1) * c < t" unfolding n using e r by linarith
  have "(?q + 1) * c = ?q * c + c" by (simp add: algebra_simps)
  then show "t \<le> int (tiles_count c t) * c" unfolding n using e r by linarith
qed

lemma tiles_count_less_iff:
  assumes "0 < c" and "0 < t"
  shows "k < tiles_count c t \<longleftrightarrow> int k * c < t"
proof
  assume "k < tiles_count c t"
  then have "int k \<le> int (tiles_count c t - 1)" by simp
  then have "int k * c \<le> int (tiles_count c t - 1) * c"
    using assms(1) by (simp add: mult_right_mono)
  with tiles_count_bounds(1) [OF assms] show "int k * c < t" by linarith
next
  assume a: "int k * c < t"
  show "k < tiles_count c t"
  proof (rule ccontr)
    assume "\<not> k < tiles_count c t"
    then have "int (tiles_count c t) \<le> int k" by simp
    then have "int (tiles_count c t) * c \<le> int k * c"
      using assms(1) by (simp add: mult_right_mono)
    with tiles_count_bounds(2) [OF assms] a show False by linarith
  qed
qed

lemma distributeWork_loop_tiles:
  assumes "0 < c" and "0 < t" and "in_int64 t" and "k \<le> tiles_count c t"
    and "k < tiles_count c t \<longrightarrow> off = int k * c"
    and "k = tiles_count c t \<longrightarrow> t \<le> off"
  shows "distributeWork_loop (\<lambda>_. False) c t off (map (tile c t) [0..<k]) =
           Some (map (tile c t) [0..<tiles_count c t])"
  using assms(4-6)
proof (induction "tiles_count c t - k" arbitrary: k off)
  case 0
  then have "k = tiles_count c t" by simp
  with 0 show ?case
    by (subst distributeWork_loop.simps) simp
next
  case (Suc d)
  then have k: "k < tiles_count c t" by simp
  then have off: "off = int k * c" using Suc.prems by simp
  have lt: "int k * c < t" using k tiles_count_less_iff [OF assms(1,2)] by simp
  have nn: "0 \<le> int k * c" using assms(1) by simp
  have r1: "in_int64 (t - int k * c)"
    using assms(3) lt nn unfolding in_int64_def by linarith
  let ?size = "min c (t - int k * c)"
  have sz: "0 < ?size" "?size \<le> t - int k * c"
    using assms(1) lt by (auto simp: min_def)
  have r2: "in_int64 (int k * c + ?size)"
    using assms(3) sz nn unfolding in_int64_def by linarith
  have step: "distributeWork_loop (\<lambda>_. False) c t off (map (tile c t) [0..<k]) =
              distributeWork_loop (\<lambda>_. False) c t (int k * c + ?size)
                (map (tile c t) [0..<Suc k])"
    apply (subst distributeWork_loop.simps)
    using lt apply (simp add: off Let_def int64_id [OF r1] tile_def min_def)
    using r2 apply (auto simp: int64_id min_def)
    done
  have "Suc k \<le> tiles_count c t" using k by simp
  moreover have "Suc k < tiles_count c t \<longrightarrow> int k * c + ?size = int (Suc k) * c"
    using tiles_count_less_iff [OF assms(1,2), of "Suc k"] by (auto simp: algebra_simps min_def)
  moreover have "Suc k = tiles_count c t \<longrightarrow> t \<le> int k * c + ?size"
    using tiles_count_less_iff [OF assms(1,2), of "Suc k"] by (auto simp: algebra_simps min_def)
  moreover have "d = tiles_count c t - Suc k" using Suc.hyps(2) by simp
  ultimately show ?case
    unfolding step by (intro Suc.hyps(1)) 
qed

lemma last_tile_size:
  assumes "0 < c" and "0 < t"
  shows "w_size (tile c t (tiles_count c t - 1)) = (if t mod c \<noteq> 0 then t mod c else c)"
proof -
  define q where "q = (t - 1) div c"
  define r where "r = (t - 1) mod c"
  have q: "0 \<le> q" using assms by (simp add: q_def pos_imp_zdiv_nonneg_iff)
  have e: "t = (r + 1) + q * c" by (simp add: q_def r_def)
  have r: "0 \<le> r" "r < c" using assms by (simp_all add: r_def)
  have n: "int (tiles_count c t - 1) = q" using q by (simp add: tiles_count_def q_def)
  have "t - q * c = r + 1" using e by linarith
  then have sz: "w_size (tile c t (tiles_count c t - 1)) = r + 1"
    unfolding tile_def n using r by (simp add: min_def)
  have m: "t mod c = (r + 1) mod c"
    by (subst e) simp
  show ?thesis
  proof (cases "r + 1 = c")
    case True
    with m sz show ?thesis by simp
  next
    case False
    with r have "r + 1 < c" by simp
    with r have "(r + 1) mod c = r + 1" by (simp add: mod_pos_pos_trivial)
    with m sz r show ?thesis by simp
  qed
qed

lemma tile_range:
  assumes "0 < c" and "int k * c < t"
  shows "work_range (tile c t k) = {int k * c ..< min (int (Suc k) * c) t}"
  using assms by (auto simp: work_range_def tile_def min_def algebra_simps)

text \<open>
  Claim C2. For every total size \<open>> 0\<close> (an \<open>int64\<close>) and chunk size \<open>> 0\<close>, the
  dispatcher that is never cancelled returns, and the work items it has sent, in the
  order of sending, have strictly increasing offsets and pairwise disjoint ranges
  whose union is exactly \<open>[0, totalSize)\<close>; every item but the last has the chunk
  size as its length, and the length of the last is \<open>totalSize mod chunkSize\<close> when
  that is not zero, and the chunk size otherwise.
\<close>

theorem distributeWork_partition:
  assumes "0 < tsize" and "in_int64 tsize" and "0 < wp_chunkSize p"
  shows "\<exists>items. distributeWork (\<lambda>_. False) p tsize = Some items \<and> items \<noteq> [] \<and>
     (\<forall>i j. i < j \<and> j < length items \<longrightarrow> w_offset (items ! i) < w_offset (items ! j)) \<and>
     (\<forall>i j. i < j \<and> j < length items \<longrightarrow>
         work_range (items ! i) \<inter> work_range (items ! j) = {}) \<and>
     (\<Union>it \<in> set items. work_range it) = {0..<tsize} \<and>
     (\<forall>i. Suc i < length items \<longrightarrow> w_size (items ! i) = wp_chunkSize p) \<and>
     w_size (last items) =
       (if tsize mod wp_chunkSize p \<noteq> 0 then tsize mod wp_chunkSize p
        else wp_chunkSize p)"
proof -
  define c where "c = wp_chunkSize p"
  define n where "n = tiles_count c tsize"
  define items where "items = map (tile c tsize) [0..<n]"
  have c: "0 < c" using assms(3) by (simp add: c_def)
  have n: "0 < n" by (simp add: n_def tiles_count_def)
  have lt: "k < n \<longleftrightarrow> int k * c < tsize" for k
    unfolding n_def by (rule tiles_count_less_iff [OF c assms(1)])
  have run: "distributeWork (\<lambda>_. False) p tsize = Some items"
    using distributeWork_loop_tiles [OF c assms(1,2), of 0 0] n
    by (simp add: distributeWork_def items_def n_def c_def)
  have len: "length items = n" by (simp add: items_def)
  have nth: "items ! k = tile c tsize k" if "k < n" for k
    using that by (simp add: items_def)
  have ne: "items \<noteq> []" using n len by auto
  have inc: "w_offset (items ! i) < w_offset (items ! j)" if "i < j" "j < length items" for i j
    using that c by (simp add: nth len tile_def)
  have rng: "work_range (items ! k) = {int k * c ..< min (int (Suc k) * c) tsize}"
    if "k < n" for k
    using that lt [of k] by (simp add: nth tile_range [OF c])
  have dis: "work_range (items ! i) \<inter> work_range (items ! j) = {}"
    if "i < j" "j < length items" for i j
  proof -
    from that have "int (Suc i) \<le> int j" by simp
    then have "int (Suc i) * c \<le> int j * c" using c by (simp only: mult_right_mono)
    with that show ?thesis
      unfolding rng [of i, OF less_trans [OF that(1) that(2) [unfolded len]]]
                rng [of j, OF that(2) [unfolded len]]
      by auto
  qed
  have un: "(\<Union>it \<in> set items. work_range it) = {0..<tsize}"
  proof (rule set_eqI)
    fix x
    show "x \<in> (\<Union>it \<in> set items. work_range it) \<longleftrightarrow> x \<in> {0..<tsize}"
    proof
      assume "x \<in> (\<Union>it \<in> set items. work_range it)"
      then obtain k where k: "k < n" "x \<in> work_range (items ! k)"
        by (auto simp: in_set_conv_nth len)
      have "0 \<le> int k * c" using c by simp
      with k show "x \<in> {0..<tsize}" by (simp add: rng)
    next
      assume x: "x \<in> {0..<tsize}"
      define k where "k = nat (x div c)"
      define r where "r = x mod c"
      have d: "0 \<le> x div c" using x c by (simp add: pos_imp_zdiv_nonneg_iff)
      have ik: "int k = x div c" using d by (simp add: k_def)
      have e: "x = int k * c + r" by (simp add: ik r_def)
      have r: "0 \<le> r" "r < c" using c by (simp_all add: r_def)
      have lo: "int k * c \<le> x" using e r by linarith
      have "int (Suc k) * c = int k * c + c" by (simp add: algebra_simps)
      then have hi: "x < int (Suc k) * c" using e r by linarith
      from lo x have "k < n" by (simp add: lt)
      moreover from lo hi x have "x \<in> work_range (items ! k)"
        using \<open>k < n\<close> by (simp add: rng)
      ultimately show "x \<in> (\<Union>it \<in> set items. work_range it)"
        using nth_mem [of k items] len by blast
    qed
  qed
  have full: "w_size (items ! i) = c" if "Suc i < length items" for i
  proof -
    from that have "int (Suc i) * c < tsize" by (simp add: len lt)
    moreover from that have "i < n" by (simp add: len)
    ultimately show ?thesis by (simp add: nth tile_def algebra_simps)
  qed
  have "last items = items ! (n - 1)" using ne len by (simp add: last_conv_nth)
  then have lst: "w_size (last items) = (if tsize mod c \<noteq> 0 then tsize mod c else c)"
    using n last_tile_size [OF c assms(1)] by (simp add: nth n_def)
  from run ne inc dis un full lst show ?thesis
    unfolding c_def by blast
qed
text \<open>A run over 10240 bytes in chunks of 4096: three items of 4096, 4096 and 2048 bytes.\<close>

theorem distributeWork_partition_witness:
  "(0::int) < 10240 \<and> in_int64 10240 \<and> 0 < wp_chunkSize (NewWorkerPool 8 2 4096) \<and>
   distributeWork (\<lambda>_. False) (NewWorkerPool 8 2 4096) 10240 =
     Some [\<lparr>w_offset = 0, w_size = 4096\<rparr>, \<lparr>w_offset = 4096, w_size = 4096\<rparr>,
           \<lparr>w_offset = 8192, w_size = 2048\<rparr>] \<and>
   (0::nat) < 2 \<and> (2::nat) < 3 \<and>
   work_range \<lparr>w_offset = 0, w_size = 4096\<rparr> \<inter> work_range \<lparr>w_offset = 8192, w_size = 2048\<rparr> = {} \<and>
   w_size \<lparr>w_offset = 8192, w_size = 2048\<rparr> = 10240 mod 4096"
proof -
  have a: "(0::int) < 10240" by simp
  have b: "in_int64 10240" by (simp add: in_int64_def)
  have c: "0 < wp_chunkSize (NewWorkerPool 8 2 4096)" by (simp add: NewWorkerPool_def)
  have r: "distributeWork (\<lambda>_. False) (NewWorkerPool 8 2 4096) 10240 =
     Some [\<lparr>w_offset = 0, w_size = 4096\<rparr>, \<lparr>w_offset = 4096, w_size = 4096\<rparr>,
           \<lparr>w_offset = 8192, w_size = 2048\<rparr>]"
    by code_simp
  from distributeWork_partition [OF a b c] r
  have d: "\<forall>i j. i < j \<and> j < 3 \<longrightarrow>
             work_range ([\<lparr>w_offset = 0, w_size = 4096\<rparr>, \<lparr>w_offset = 4096, w_size = 4096\<rparr>,
               \<lparr>w_offset = 8192, w_size = 2048\<rparr>] ! i) \<inter>
             work_range ([\<lparr>w_offset = 0, w_size = 4096\<rparr>, \<lparr>w_offset = 4096, w_size = 4096\<rparr>,
               \<lparr>w_offset = 8192, w_size = 2048\<rparr>] ! j) = {}"
    and l: "w_size (last [\<lparr>w_offset = 0, w_size = 4096\<rparr>, \<lparr>w_offset = 4096, w_size = 4096\<rparr>,
               \<lparr>w_offset = 8192, w_size = 2048\<rparr>]) =
            (if (10240::int) mod wp_chunkSize (NewWorkerPool 8 2 4096) \<noteq> 0
             then 10240 mod wp_chunkSize (NewWorkerPool 8 2 4096)
             else wp_chunkSize (NewWorkerPool 8 2 4096))"
    by auto
  from d [rule_format, of 0 2] have e:
    "work_range \<lparr>w_offset = 0, w_size = 4096\<rparr> \<inter> work_range \<lparr>w_offset = 8192, w_size = 2048\<rparr> = {}"
    by simp
  from a b c r e l show ?thesis
    by (simp add: NewWorkerPool_def)
qed


section \<open>Properties of the file writer\<close>

text \<open>
  Claim C10. \<open>WriteAt\<close> with an empty slice returns \<open>nil\<close> and changes nothing,
  neither the file nor the counter: for every state of the writer, open or closed (also
  the state that \<open>Close\<close> leaves, after whatever the operating system answered), for
  every offset, negative or beyond the total size, and whatever the operating system would
  answer to a seek or a write. The test for the empty input comes first.
\<close>

theorem FileWriter_WriteAt_empty:
  "FileWriter_WriteAt io [] offset w = (None, w) \<and>
   FileWriter_WriteAt io [] offset (snd (FileWriter_Close sync_error close_error w)) =
     (None, snd (FileWriter_Close sync_error close_error w)) \<and>
   Written (snd (FileWriter_WriteAt io [] offset w)) = Written w \<and>
   file_os (snd (FileWriter_WriteAt io [] offset w)) = file_os w"
  by (simp add: FileWriter_WriteAt_def)












section \<open>Properties of the result sink\<close>

text \<open>
  The loop of \<open>runTrasher\<close> advances its own counter \<open>writtenBytes\<close> only in an
  iteration that goes on looping, which is one whose \<open>WriteAt\<close> returned \<open>nil\<close>, and
  then by the length of the buffer; it hands the buffer of the result, as it received
  it, to \<open>ReturnBuffer\<close>.
\<close>

lemma sink_iteration_writtenBytes:
  assumes "sink_iteration upd handler_done pick_done io (k, p) = Went (st, k', p')"
  shows "(st \<noteq> SinkLooping \<longrightarrow> writtenBytes k' = writtenBytes k) \<and>
         (st = SinkLooping \<longrightarrow>
            (\<exists>result rest. resultChan p = result # rest \<and>
               fst (FileWriter_WriteAt io (bytes_of (r_buffer result)) (r_offset result)
                      (fileWriter k)) = None \<and>
               writtenBytes k' =
                 int64 (writtenBytes k + int (len (r_buffer result))) \<and>
               bufferPool p' = r_buffer result # bufferPool p))"
  using assms
  by (auto simp: sink_iteration_def Let_def ReturnBuffer_def bufferPool_Put_def
           split: option.splits selected.splits list.splits prod.splits)

section \<open>Properties of the shutdown handler\<close>

lemma cleanupFns_fold_Register:
  "cleanupFns (fold RegisterCleanupFunc fs h) = cleanupFns h @ fs"
  by (induction fs arbitrary: h) (simp_all add: RegisterCleanupFunc_def)

lemma fold_Register_other_fields:
  "progress (fold RegisterCleanupFunc fs h) = progress h"
  "writer (fold RegisterCleanupFunc fs h) = writer h"
  "output_w (fold RegisterCleanupFunc fs h) = output_w h"
  "shutdownOnce (fold RegisterCleanupFunc fs h) = shutdownOnce h"
  by (induction fs arbitrary: h) (simp_all add: RegisterCleanupFunc_def)

lemma cleanup_loop_take:
  "k \<le> length fns \<Longrightarrow>
   cleanup_loop fns (int k - 1) (out, w) =
     (out @ map CleanupWarning (fst (run_in_order (rev (take k fns)) w)),
      snd (run_in_order (rev (take k fns)) w))"
proof (induction k arbitrary: out w)
  case 0
  then show ?case by (subst cleanup_loop.simps) simp
next
  case (Suc k)
  then have k: "k < length fns" by simp
  obtain err w1 where f: "(fns ! k) w = (err, w1)" by (cases "(fns ! k) w")
  have "cleanup_loop fns (int (Suc k) - 1) (out, w) =
        cleanup_loop fns (int k - 1)
          ((case err of None \<Rightarrow> out | Some e \<Rightarrow> out @ [CleanupWarning e]), w1)"
    by (subst cleanup_loop.simps) (simp add: f)
  also have "\<dots> = ((case err of None \<Rightarrow> out | Some e \<Rightarrow> out @ [CleanupWarning e]) @
                    map CleanupWarning (fst (run_in_order (rev (take k fns)) w1)),
                  snd (run_in_order (rev (take k fns)) w1))"
    using Suc.IH [of _ w1] k by simp
  finally show ?case
    using k f by (simp add: take_Suc_conv_app_nth Let_def split: prod.splits option.splits)
qed

lemma cleanup_loop_all:
  "cleanup_loop fns (int (length fns) - 1) (out, w) =
     (out @ map CleanupWarning (fst (run_in_order (rev fns) w)), snd (run_in_order (rev fns) w))"
  using cleanup_loop_take [of "length fns" fns out w] by simp

lemma performCleanup_eq:
  "performCleanup (h, w) =
     (let w0 = (case progress h of None \<Rightarrow> w | Some stop \<Rightarrow> stop w);
          report = (case writer h of None \<Rightarrow> [] | Some wr \<Rightarrow> reportPartialProgress (wr w0))
      in (h\<lparr>output_w := output_w h @ report @
               (if cleanupFns h = [] then []
                else [CleaningUp] @ map CleanupWarning (fst (run_in_order (rev (cleanupFns h)) w0)) @
                     [CleanupCompleted])\<rparr>,
          snd (run_in_order (rev (cleanupFns h)) w0)))"
  by (cases "writer h"; cases "cleanupFns h = []")
     (simp_all add: performCleanup_def Let_def cleanup_loop_all)

text \<open>
  Claim C7. After the cleanup functions \<open>fs\<close> have been registered in this order on a
  handler that had none, \<open>performCleanup\<close> returns normally, and the state of the
  program it leaves is the one obtained by running the functions in reverse
  registration order, each on the state the previous one left, whether or not any of
  them returned an error. Each error is written to the output as a warning, in the
  order of the calls, between the line that opens the cleanup and the line that closes it;
  none is raised.
\<close>

theorem performCleanup_LIFO:
  assumes "cleanupFns h0 = []"
    and "performCleanup (fold RegisterCleanupFunc fs h0, w) = (h', w')"
    and "w0 = (case progress h0 of None \<Rightarrow> w | Some stop \<Rightarrow> stop w)"
  shows "w' = snd (run_in_order (rev fs) w0) \<and>
         output_w h' = output_w h0 @
            (case writer h0 of None \<Rightarrow> [] | Some wr \<Rightarrow> reportPartialProgress (wr w0)) @
            (if fs = [] then []
             else [CleaningUp] @ map CleanupWarning (fst (run_in_order (rev fs) w0)) @
                  [CleanupCompleted])"
proof -
  let ?h = "fold RegisterCleanupFunc fs h0"
  have fns: "cleanupFns ?h = fs"
    by (simp add: cleanupFns_fold_Register assms(1))
  from assms(2) show ?thesis
    unfolding performCleanup_eq Let_def fns fold_Register_other_fields assms(3) [symmetric]
    by auto
qed

theorem performCleanup_LIFO_witness:
  "cleanupFns (NewShutdownHandler :: string ShutdownHandler) = [] \<and>
   snd (performCleanup
          (fold RegisterCleanupFunc
             [\<lambda>w. (None, w @ ''a''), \<lambda>w. (Some ''boom'', w @ ''b''), \<lambda>w. (None, w @ ''c'')]
             NewShutdownHandler, '''')) = ''cba'' \<and>
   output_w (fst (performCleanup
          (fold RegisterCleanupFunc
             [\<lambda>w. (None, w @ ''a''), \<lambda>w. (Some ''boom'', w @ ''b''), \<lambda>w. (None, w @ ''c'')]
             NewShutdownHandler, ''''))) = [CleaningUp, CleanupWarning ''boom'', CleanupCompleted]"
proof -
  have e: "cleanupFns (NewShutdownHandler :: string ShutdownHandler) = []"
    by (simp add: NewShutdownHandler_def)
  have p: "progress (NewShutdownHandler :: string ShutdownHandler) = None"
          "writer (NewShutdownHandler :: string ShutdownHandler) = None"
          "output_w (NewShutdownHandler :: string ShutdownHandler) = []"
    by (simp_all add: NewShutdownHandler_def)
  show ?thesis
    using performCleanup_LIFO [OF e prod.collapse [symmetric] refl,
        of "[\<lambda>w. (None, w @ ''a''), \<lambda>w. (Some ''boom'', w @ ''b''), \<lambda>w. (None, w @ ''c'')]" "''''"]
    by (simp add: e p)
qed

lemma initiateShutdown_fresh:
  "\<not> shutdownOnce h \<Longrightarrow>
   initiateShutdown (h, w) =
     performCleanup (h\<lparr>shutdownOnce := True, isShutdown := True, sh_ctx_done := True\<rparr>, w)"
  by (simp add: initiateShutdown_def Let_def)

lemma initiateShutdown_done:
  "shutdownOnce h \<Longrightarrow> initiateShutdown (h, w) = (h, w)"
  by (simp add: initiateShutdown_def)

lemma shutdownOnce_after: "shutdownOnce (fst (initiateShutdown (h, w)))"
  by (cases "shutdownOnce h")
     (simp_all add: initiateShutdown_done initiateShutdown_fresh performCleanup_eq Let_def)

lemma Stop_Stop: "Stop (Stop s) = Stop s"
  unfolding Stop_def
  by (cases s) (metis initiateShutdown_done prod.collapse shutdownOnce_after)

lemma Stop_funpow: "(Stop ^^ Suc n) s = Stop s"
  by (induction n) (simp_all add: Stop_Stop)

text \<open>
  Claim C6. Any number \<open>n > 0\<close> of calls of \<open>Stop\<close> has the effect of one call, and
  a call on a handler whose \<open>sync.Once\<close> has fired changes nothing. On a handler
  that has not shut down, the \<open>n\<close> calls together mark the shutdown, cancel the
  context, and run the registered cleanup functions once each, in reverse order: the
  state of the program and the output are those of a single pass. Concurrent callers are
  serialised by the \<open>sync.Once\<close>, so their calls form such a sequence.
\<close>

theorem Stop_idempotent:
  assumes "0 < n"
  shows "(Stop ^^ n) (h, w) = Stop (h, w) \<and>
         Stop (Stop (h, w)) = Stop (h, w) \<and>
         (shutdownOnce h \<longrightarrow> Stop (h, w) = (h, w)) \<and>
         (\<not> shutdownOnce h \<longrightarrow>
            (let w0 = (case progress h of None \<Rightarrow> w | Some stop \<Rightarrow> stop w);
                 (h', w') = (Stop ^^ n) (h, w)
             in isShutdown h' \<and> sh_ctx_done h' \<and> shutdownOnce h' \<and>
                w' = snd (run_in_order (rev (cleanupFns h)) w0) \<and>
                output_w h' = output_w h @
                  (case writer h of None \<Rightarrow> [] | Some wr \<Rightarrow> reportPartialProgress (wr w0)) @
                  (if cleanupFns h = [] then []
                   else [CleaningUp] @
                        map CleanupWarning (fst (run_in_order (rev (cleanupFns h)) w0)) @
                        [CleanupCompleted])))"
proof -
  from assms obtain m where n: "n = Suc m" by (cases n) auto
  have a: "(Stop ^^ n) (h, w) = Stop (h, w)"
    unfolding n by (rule Stop_funpow)
  have b: "shutdownOnce h \<longrightarrow> Stop (h, w) = (h, w)"
    by (simp add: Stop_def initiateShutdown_done)
  show ?thesis
    unfolding a using b
    by (simp add: Stop_Stop) (simp add: Stop_def initiateShutdown_fresh performCleanup_eq Let_def)
qed

theorem Stop_idempotent_witness:
  "(0::nat) < 3 \<and>
   \<not> shutdownOnce (fold RegisterCleanupFunc
        [\<lambda>w. (None, w @ ''a''), \<lambda>w. (Some ''boom'', w @ ''b''), \<lambda>w. (None, w @ ''c'')]
        (NewShutdownHandler :: string ShutdownHandler)) \<and>
   snd ((Stop ^^ 3) (fold RegisterCleanupFunc
        [\<lambda>w. (None, w @ ''a''), \<lambda>w. (Some ''boom'', w @ ''b''), \<lambda>w. (None, w @ ''c'')]
        NewShutdownHandler, '''')) = ''cba'' \<and>
   output_w (fst ((Stop ^^ 3) (fold RegisterCleanupFunc
        [\<lambda>w. (None, w @ ''a''), \<lambda>w. (Some ''boom'', w @ ''b''), \<lambda>w. (None, w @ ''c'')]
        NewShutdownHandler, ''''))) = [CleaningUp, CleanupWarning ''boom'', CleanupCompleted]"
proof -
  have z: "(0::nat) < 3" by simp
  show ?thesis
    using Stop_idempotent [OF z,
        of "fold RegisterCleanupFunc
        [\<lambda>w. (None, w @ ''a''), \<lambda>w. (Some ''boom'', w @ ''b''), \<lambda>w. (None, w @ ''c'')]
        (NewShutdownHandler :: string ShutdownHandler)" "''''"]
    by (simp add: NewShutdownHandler_def RegisterCleanupFunc_def Let_def split: prod.splits)
qed

section \<open>Properties of the checksum\<close>

lemma offset_chunks_append:
  "offset_chunks off (a @ b) =
     offset_chunks off a @ offset_chunks (off + int (length (concat a))) b"
  by (induction a arbitrary: off) (simp_all add: algebra_simps)

lemma offset_chunks_ge:
  "(k, b) \<in> set (offset_chunks off cs) \<Longrightarrow> off \<le> k"
  by (induction cs arbitrary: off) force+

lemma offset_chunks_head:
  assumes "ch \<noteq> []" and "(off, b) \<in> set (offset_chunks off (ch # cs))"
  shows "b = ch"
proof (rule ccontr)
  assume "b \<noteq> ch"
  with assms(2) have "(off, b) \<in> set (offset_chunks (off + int (length ch)) cs)" by simp
  then have "off + int (length ch) \<le> off" by (rule offset_chunks_ge)
  with assms(1) show False by simp
qed

lemma offset_chunks_functional:
  assumes "\<forall>ch \<in> set cs. ch \<noteq> []"
    and "(k, b) \<in> set (offset_chunks off cs)" and "(k, b') \<in> set (offset_chunks off cs)"
  shows "b = b'"
  using assms
proof (induction cs arbitrary: off)
  case Nil
  then show ?case by simp
next
  case (Cons ch cs)
  show ?case
  proof (cases "k = off")
    case True
    with Cons.prems offset_chunks_head [of ch off _ cs] show ?thesis by auto
  next
    case False
    with Cons.prems have "(k, b) \<in> set (offset_chunks (off + int (length ch)) cs)"
      "(k, b') \<in> set (offset_chunks (off + int (length ch)) cs)" by auto
    with Cons.IH Cons.prems(1) show ?thesis by auto
  qed
qed

lemma fold_pending_none:
  "map_of (pending c) (next_offset c) = None \<Longrightarrow> fold_pending upd c = c"
  by (subst fold_pending.simps) simp

lemma fold_pending_some:
  "map_of (pending c) (next_offset c) = Some bs \<Longrightarrow>
   fold_pending upd c =
     fold_pending upd
       (c\<lparr>hash_state := foldl upd (hash_state c) bs,
          next_offset := next_offset c + int (length bs),
          pending := AList.delete (next_offset c) (pending c)\<rparr>)"
  by (subst fold_pending.simps) simp

lemma fold_pending_drain:
  assumes "\<forall>ch \<in> set cs. ch \<noteq> []"
    and "\<forall>k b. map_of (pending c) k = Some b \<longrightarrow>
                (k, b) \<in> set (offset_chunks (next_offset c) cs)"
  shows "\<exists>pre post P'.
           cs = pre @ post \<and>
           fold_pending upd c =
             c\<lparr>hash_state := foldl upd (hash_state c) (concat pre),
               next_offset := next_offset c + int (length (concat pre)),
               pending := P'\<rparr> \<and>
           (\<forall>k b. (k, b) \<in> set (offset_chunks (next_offset c) pre) \<longrightarrow>
                   map_of (pending c) k = Some b) \<and>
           (\<forall>k. map_of P' k =
                  (if k \<in> fst ` set (offset_chunks (next_offset c) pre) then None
                   else map_of (pending c) k)) \<and>
           map_of P' (next_offset c + int (length (concat pre))) = None"
  using assms
proof (induction cs arbitrary: c)
  case Nil
  then have e: "map_of (pending c) k = None" for k
    by (cases "map_of (pending c) k") auto
  have "fold_pending upd c = c" by (rule fold_pending_none) (rule e)
  then show ?case
    by (intro exI [of _ "[]"] exI [of _ "pending c"]) (simp add: e)
next
  case (Cons ch cs)
  show ?case
  proof (cases "map_of (pending c) (next_offset c)")
    case None
    then have "fold_pending upd c = c" by (rule fold_pending_none)
    with None show ?thesis
      by (intro exI [of _ "[]"] exI [of _ "ch # cs"] exI [of _ "pending c"]) simp
  next
    case (Some b)
    with Cons.prems have b: "b = ch"
      using offset_chunks_head [of ch "next_offset c" b cs] by auto
    define c1 where "c1 = c\<lparr>hash_state := foldl upd (hash_state c) ch,
          next_offset := next_offset c + int (length ch),
          pending := AList.delete (next_offset c) (pending c)\<rparr>"
    have f: "fold_pending upd c = fold_pending upd c1"
      using fold_pending_some [OF Some] by (simp add: c1_def b)
    have m1: "map_of (pending c1) k = (if k = next_offset c then None else map_of (pending c) k)"
      for k
      by (simp add: c1_def delete_conv)
    have sub: "\<forall>k b. map_of (pending c1) k = Some b \<longrightarrow>
                (k, b) \<in> set (offset_chunks (next_offset c1) cs)"
    proof (intro allI impI)
      fix k b assume "map_of (pending c1) k = Some b"
      then have "k \<noteq> next_offset c" "map_of (pending c) k = Some b"
        by (simp_all add: m1 split: if_splits)
      with Cons.prems(2) have "(k, b) \<in> set (offset_chunks (next_offset c) (ch # cs))" by blast
      with \<open>k \<noteq> next_offset c\<close> show "(k, b) \<in> set (offset_chunks (next_offset c1) cs)"
        by (simp add: c1_def)
    qed
    from Cons.prems(1) have ne: "\<forall>ch \<in> set cs. ch \<noteq> []" by simp
    from Cons.IH [OF ne sub] obtain pre post P' where
      s: "cs = pre @ post"
      and r: "fold_pending upd c1 =
             c1\<lparr>hash_state := foldl upd (hash_state c1) (concat pre),
               next_offset := next_offset c1 + int (length (concat pre)),
               pending := P'\<rparr>"
      and i: "\<forall>k b. (k, b) \<in> set (offset_chunks (next_offset c1) pre) \<longrightarrow>
                   map_of (pending c1) k = Some b"
      and p: "\<forall>k. map_of P' k =
                  (if k \<in> fst ` set (offset_chunks (next_offset c1) pre) then None
                   else map_of (pending c1) k)"
      and l: "map_of P' (next_offset c1 + int (length (concat pre))) = None"
      by blast
    have n1: "next_offset c1 = next_offset c + int (length ch)" by (simp add: c1_def)
    have 1: "ch # cs = (ch # pre) @ post" using s by simp
    have 2: "fold_pending upd c =
             c\<lparr>hash_state := foldl upd (hash_state c) (concat (ch # pre)),
               next_offset := next_offset c + int (length (concat (ch # pre))),
               pending := P'\<rparr>"
      unfolding f r by (simp add: c1_def algebra_simps)
    have 3: "\<forall>k b. (k, b) \<in> set (offset_chunks (next_offset c) (ch # pre)) \<longrightarrow>
                   map_of (pending c) k = Some b"
      using i Some b by (auto simp: n1 m1 split: if_splits)
    have 4: "\<forall>k. map_of P' k =
                  (if k \<in> fst ` set (offset_chunks (next_offset c) (ch # pre)) then None
                   else map_of (pending c) k)"
      using p by (auto simp: n1 m1)
    have 5: "map_of P' (next_offset c + int (length (concat (ch # pre)))) = None"
      using l by (simp add: n1 algebra_simps)
    from 1 2 3 4 5 show ?thesis by blast
  qed
qed

lemma offset_chunks_lt:
  assumes "\<forall>ch \<in> set cs. ch \<noteq> []" and "(k, b) \<in> set (offset_chunks off cs)"
  shows "k < off + int (length (concat cs))"
  using assms
proof (induction cs arbitrary: off)
  case Nil
  then show ?case by simp
next
  case (Cons ch cs)
  show ?case
  proof (cases "(k, b) = (off, ch)")
    case True
    from Cons.prems(1) have "0 < int (length ch)" by simp
    moreover from True have "k = off" by simp
    moreover have "int (length (concat (ch # cs))) = int (length ch) + int (length (concat cs))"
      by simp
    ultimately show ?thesis by linarith
  next
    case False
    with Cons.prems have "(k, b) \<in> set (offset_chunks (off + int (length ch)) cs)" by auto
    with Cons.IH Cons.prems(1) have "k < off + int (length ch) + int (length (concat cs))"
      by simp
    then show ?thesis by simp
  qed
qed

lemma distinct_offset_chunks:
  "\<forall>ch \<in> set cs. ch \<noteq> [] \<Longrightarrow> distinct (offset_chunks off cs)"
proof (induction cs arbitrary: off)
  case Nil
  then show ?case by simp
next
  case (Cons ch cs)
  have "(off, ch) \<notin> set (offset_chunks (off + int (length ch)) cs)"
  proof
    assume "(off, ch) \<in> set (offset_chunks (off + int (length ch)) cs)"
    then have "off + int (length ch) \<le> off" by (rule offset_chunks_ge)
    with Cons.prems show False by simp
  qed
  with Cons show ?case by simp
qed

lemma UpdateWithChunk_arrivals_Cons:
  "UpdateWithChunk_arrivals upd ((k, b) # arrival) c =
     UpdateWithChunk_arrivals upd arrival
       (fold_pending upd (c\<lparr>pending := AList.update k b (pending c)\<rparr>))"
  by (simp add: UpdateWithChunk_arrivals_def UpdateWithChunk_def)

lemma UpdateWithChunk_arrivals_remaining:
  assumes "\<forall>ch \<in> set cs. ch \<noteq> []"
    and "\<forall>k b. map_of (pending c) k = Some b \<longrightarrow>
                (k, b) \<in> set (offset_chunks (next_offset c) cs)"
    and "map_of (pending c) (next_offset c) = None"
    and "distinct arrival"
    and "set arrival = set (offset_chunks (next_offset c) cs) -
                       {(k, b). map_of (pending c) k = Some b}"
  shows "hash_state (UpdateWithChunk_arrivals upd arrival c) =
           foldl upd (hash_state c) (concat cs) \<and>
         pending (UpdateWithChunk_arrivals upd arrival c) = [] \<and>
         next_offset (UpdateWithChunk_arrivals upd arrival c) =
           next_offset c + int (length (concat cs))"
  using assms
proof (induction arrival arbitrary: c cs)
  case Nil
  have cs: "cs = []"
  proof (cases cs)
    case Nil
    then show ?thesis .
  next
    case (Cons ch cs')
    then have "(next_offset c, ch) \<in> set (offset_chunks (next_offset c) cs)" by simp
    with Nil.prems(5) have "map_of (pending c) (next_offset c) = Some ch" by auto
    with Nil.prems(3) show ?thesis by simp
  qed
  with Nil.prems(2) have "map_of (pending c) k = None" for k
    by (cases "map_of (pending c) k") auto
  then have "map_of (pending c) = Map.empty" by (intro ext)
  then have "pending c = []" by (simp only: map_of_eq_empty_iff)
  with cs show ?case by (simp add: UpdateWithChunk_arrivals_def)
next
  case (Cons r arrival)
  obtain k0 b0 where r: "r = (k0, b0)" by (cases r)
  let ?rs = "offset_chunks (next_offset c) cs"
  from Cons.prems(5) have rin: "(k0, b0) \<in> set ?rs" and rnot: "map_of (pending c) k0 \<noteq> Some b0"
    by (auto simp: r)
  have m0: "map_of (pending c) k0 = None"
  proof (cases "map_of (pending c) k0")
    case None
    then show ?thesis .
  next
    case (Some b')
    with Cons.prems(2) have "(k0, b') \<in> set ?rs" by blast
    then have "b0 = b'" by (rule offset_chunks_functional [OF Cons.prems(1) rin])
    with Some rnot show ?thesis by simp
  qed
  define c1 where "c1 = c\<lparr>pending := AList.update k0 b0 (pending c)\<rparr>"
  have m1: "map_of (pending c1) k = (if k = k0 then Some b0 else map_of (pending c) k)" for k
    by (simp add: c1_def update_conv')
  have n1: "next_offset c1 = next_offset c" "hash_state c1 = hash_state c"
    by (simp_all add: c1_def)
  have sub1: "\<forall>k b. map_of (pending c1) k = Some b \<longrightarrow>
                (k, b) \<in> set (offset_chunks (next_offset c1) cs)"
    using Cons.prems(2) rin by (auto simp: m1 n1 split: if_splits)
  from fold_pending_drain [OF Cons.prems(1) sub1, of upd] obtain pre post P' where
    s: "cs = pre @ post"
    and f: "fold_pending upd c1 =
             c1\<lparr>hash_state := foldl upd (hash_state c1) (concat pre),
               next_offset := next_offset c1 + int (length (concat pre)),
               pending := P'\<rparr>"
    and i: "\<forall>k b. (k, b) \<in> set (offset_chunks (next_offset c1) pre) \<longrightarrow>
                   map_of (pending c1) k = Some b"
    and p: "\<forall>k. map_of P' k =
                  (if k \<in> fst ` set (offset_chunks (next_offset c1) pre) then None
                   else map_of (pending c1) k)"
    and l: "map_of P' (next_offset c1 + int (length (concat pre))) = None"
    by blast
  define c2 where "c2 = fold_pending upd c1"
  let ?o2 = "next_offset c + int (length (concat pre))"
  have c2: "next_offset c2 = ?o2" "pending c2 = P'"
    "hash_state c2 = foldl upd (hash_state c) (concat pre)"
    by (simp_all add: c2_def f n1)
  have rs: "set ?rs = set (offset_chunks (next_offset c) pre) \<union> set (offset_chunks ?o2 post)"
    by (simp add: s offset_chunks_append)
  have ne: "\<forall>ch \<in> set pre. ch \<noteq> []" "\<forall>ch \<in> set post. ch \<noteq> []"
    using Cons.prems(1) s by auto
  have sep: "(k, b) \<in> set (offset_chunks (next_offset c) pre) \<Longrightarrow>
             (k, b') \<in> set (offset_chunks ?o2 post) \<Longrightarrow> False" for k b b'
    using offset_chunks_lt [OF ne(1), of k b "next_offset c"]
          offset_chunks_ge [of k b' ?o2 post] by simp
  have sub2: "\<forall>k b. map_of (pending c2) k = Some b \<longrightarrow>
                (k, b) \<in> set (offset_chunks (next_offset c2) post)"
  proof (intro allI impI)
    fix k b assume a: "map_of (pending c2) k = Some b"
    with p have "k \<notin> fst ` set (offset_chunks (next_offset c) pre)"
      and "map_of (pending c1) k = Some b"
      by (simp_all add: c2 n1 split: if_splits)
    with sub1 rs show "(k, b) \<in> set (offset_chunks (next_offset c2) post)"
      by (force simp: c2 n1)
  qed
  have hd2: "map_of (pending c2) (next_offset c2) = None"
    using l by (simp add: c2 n1)
  have d2: "distinct arrival" using Cons.prems(4) by simp
  have arr2: "set arrival = set (offset_chunks (next_offset c2) post) -
                       {(k, b). map_of (pending c2) k = Some b}"
  proof (intro set_eqI iffI)
    fix x assume x: "x \<in> set arrival"
    obtain k b where xk: "x = (k, b)" by (cases x)
    from x Cons.prems(4,5) have "x \<noteq> r" "x \<in> set ?rs" "map_of (pending c) k \<noteq> Some b"
      by (auto simp: xk)
    then have nm1: "map_of (pending c1) k \<noteq> Some b"
      by (auto simp: m1 r xk)
    with i have "(k, b) \<notin> set (offset_chunks (next_offset c) pre)" by (auto simp: n1)
    with \<open>x \<in> set ?rs\<close> rs have "(k, b) \<in> set (offset_chunks ?o2 post)" by (simp add: xk)
    moreover from p nm1 have "map_of P' k \<noteq> Some b" by (simp split: if_splits)
    ultimately show "x \<in> set (offset_chunks (next_offset c2) post) -
                       {(k, b). map_of (pending c2) k = Some b}"
      by (simp add: xk c2)
  next
    fix x assume x: "x \<in> set (offset_chunks (next_offset c2) post) -
                       {(k, b). map_of (pending c2) k = Some b}"
    obtain k b where xk: "x = (k, b)" by (cases x)
    from x have xp: "(k, b) \<in> set (offset_chunks ?o2 post)" and np: "map_of P' k \<noteq> Some b"
      by (simp_all add: xk c2)
    from xp sep have "k \<notin> fst ` set (offset_chunks (next_offset c) pre)" by force
    with p np have nm1: "map_of (pending c1) k \<noteq> Some b" by (simp add: n1)
    then have "x \<noteq> r" "map_of (pending c) k \<noteq> Some b"
      using m0 by (auto simp: m1 r xk split: if_splits)
    moreover from xp rs have "x \<in> set ?rs" by (simp add: xk)
    ultimately show "x \<in> set arrival"
      using Cons.prems(5) by (auto simp: xk)
  qed
  from Cons.IH [OF ne(2) sub2 hd2 d2 arr2]
  have "hash_state (UpdateWithChunk_arrivals upd arrival c2) =
           foldl upd (hash_state c2) (concat post) \<and>
         pending (UpdateWithChunk_arrivals upd arrival c2) = [] \<and>
         next_offset (UpdateWithChunk_arrivals upd arrival c2) =
           next_offset c2 + int (length (concat post))" .
  moreover have "UpdateWithChunk_arrivals upd (r # arrival) c =
                 UpdateWithChunk_arrivals upd arrival c2"
    by (simp add: r UpdateWithChunk_arrivals_Cons c2_def c1_def)
  ultimately show ?case
    by (simp add: c2 s)
qed

text \<open>
  Claim C3, for the checksum as modelled from the specification. Let a file be cut into
  non-empty chunks, and let the results, each chunk with the offset at which it starts,
  reach the sink in any order. Then the finalized checksum is the digest of the bytes of
  the file taken in offset order, and no chunk is left buffered: the running hash is fed
  in offset order only, whatever the order of arrival.
\<close>

theorem checksum_in_offset_order:
  assumes "\<forall>ch \<in> set chunks. ch \<noteq> []"
    and "mset arrival = mset (offset_chunks 0 chunks)"
  shows "finalized (UpdateWithChunk_arrivals upd arrival (NewChecksumGenerator init)) =
           digest upd init (concat chunks) \<and>
         pending (UpdateWithChunk_arrivals upd arrival (NewChecksumGenerator init)) = []"
proof -
  let ?c = "NewChecksumGenerator init :: 'a ChecksumGenerator"
  have c: "next_offset ?c = 0" "pending ?c = []" "hash_state ?c = init"
    by (simp_all add: NewChecksumGenerator_def)
  have d: "distinct arrival"
    using distinct_offset_chunks [OF assms(1), of 0] assms(2)
    by (metis mset_eq_imp_distinct_iff)
  have s: "set arrival = set (offset_chunks 0 chunks)"
    using assms(2) by (rule mset_eq_setD)
  from UpdateWithChunk_arrivals_remaining [of chunks ?c arrival upd] assms(1) d s
  show ?thesis
    by (simp add: c finalized_def digest_def)
qed

text \<open>
  Three chunks arriving last, first, second, under a hash that depends on the order of
  the bytes: the checksum is that of the bytes in offset order, which the same hash fed
  in arrival order would not give.
\<close>

theorem checksum_in_offset_order_witness:
  "[] \<notin> set [[1, 2], [3, 4], [5 :: byte]] \<and>
   mset [(4, [5]), (0, [1, 2]), (2, [3, 4 :: byte])] =
     mset (offset_chunks 0 [[1, 2], [3, 4], [5]]) \<and>
   finalized (UpdateWithChunk_arrivals (\<lambda>h b. 10 * h + unat b)
                [(4, [5]), (0, [1, 2]), (2, [3, 4])] (NewChecksumGenerator 0)) = 12345 \<and>
   digest (\<lambda>h b. 10 * h + unat b) 0 (concat [[1, 2], [3, 4], [5]]) = 12345 \<and>
   digest (\<lambda>h b. 10 * h + unat b) 0 (concat [[5], [1, 2], [3, 4]]) = 51234"
proof -
  have a: "\<forall>ch \<in> set [[1, 2], [3, 4], [5 :: byte]]. ch \<noteq> []" by simp
  have b: "mset [(4, [5]), (0, [1, 2]), (2, [3, 4 :: byte])] =
             mset (offset_chunks 0 [[1, 2], [3, 4], [5]])"
    by simp
  have d: "digest (\<lambda>h b. 10 * h + unat b) 0 (concat [[1, 2], [3, 4], [5]]) = 12345"
          "digest (\<lambda>h b. 10 * h + unat b) 0 (concat [[5], [1, 2], [3, 4]]) = 51234"
    by (simp_all add: digest_def)
  from checksum_in_offset_order [OF a b, of "\<lambda>h b. 10 * h + unat b" 0] b d
  show ?thesis by simp
qed

end
